theory Spec2Isabelle
  imports Main "HOL-Library.Word"
begin

unbundle bit_operations_syntax

section \<open>Abnormal outcomes\<close>

text \<open>
  The library is C. Wherever the source can stop other than by returning (a failed
  \<open>assert\<close>, a null or out-of-range access, a division by zero, a write past a
  fixed buffer) the embedding returns \<open>Inl\<close> of the fault, so that every such exit is a
  branch of the model. \<open>Out_of_fuel\<close> is not an outcome of the C code: it marks a run of
  the recursive-descent parser that the model cut short.
\<close>

datatype fault =
    Assertion_failed
  | Null_dereference
  | Out_of_bounds_read
  | Division_by_zero
  | Buffer_overflow
  | Inactive_member_read
  | Out_of_fuel

type_synonym 'a result = "fault + 'a"

definition bind_result :: "'a result \<Rightarrow> ('a \<Rightarrow> 'b result) \<Rightarrow> 'b result" where
  "bind_result r f = (case r of Inl e \<Rightarrow> Inl e | Inr x \<Rightarrow> f x)"

section \<open>C strings, \<open><ctype.h>\<close> and \<open><stdlib.h>\<close>\<close>

text \<open>
  A \<open>char *\<close> argument is modelled by a \<open>string\<close>; what C reads of it are the bytes
  before its first NUL, \<open>c_str\<close>. The three \<open><string.h>\<close> functions the library
  uses are written on that reading: \<open>strcmp_eq a b\<close> is \<open>strcmp(a, b) == 0\<close>.
\<close>

definition NUL :: char where
  "NUL = CHR 0x00"

definition c_str :: "string \<Rightarrow> string" where
  "c_str s = takeWhile (\<lambda>c. c \<noteq> NUL) s"

definition strcmp_eq :: "string \<Rightarrow> string \<Rightarrow> bool" where
  "strcmp_eq a b = (c_str a = c_str b)"

definition strdup :: "string \<Rightarrow> string" where
  "strdup s = c_str s"

definition strndup :: "string \<Rightarrow> nat \<Rightarrow> string" where
  "strndup s n = c_str (take n s)"

definition isdigit :: "char \<Rightarrow> bool" where
  "isdigit c = (c \<in> set ''0123456789'')"

definition isspace :: "char \<Rightarrow> bool" where
  "isspace c = (c \<in> {CHR '' '', CHR 0x09, CHR 0x0A, CHR 0x0B, CHR 0x0C, CHR 0x0D})"

definition isalpha :: "char \<Rightarrow> bool" where
  "isalpha c = (c \<in> set ''abcdefghijklmnopqrstuvwxyzABCDEFGHIJKLMNOPQRSTUVWXYZ'')"

definition digit_val :: "char \<Rightarrow> nat" where
  "digit_val c = of_char c - 48"

definition decimal :: "string \<Rightarrow> nat" where
  "decimal ds = foldl (\<lambda>v c. 10 * v + digit_val c) 0 ds"

text \<open>
  \<open>strtol(s, NULL, 10)\<close> and \<open>strtoul(s, &endptr, 10)\<close> of the C library, for a 64-bit
  \<open>long\<close> (the LP64 targets the library is built on): white space, an optional sign,
  the longest run of digits; no digits converts to 0, and a value out of range is
  clamped. \<open>strtoul\<close> negates in the unsigned type and also returns how many bytes it
  consumed (\<open>endptr - s\<close>; 0 when there is no digit).
\<close>

definition strtol :: "string \<Rightarrow> int" where
  "strtol s =
     (let s1 = dropWhile isspace s;
          signed = (s1 \<noteq> [] \<and> (hd s1 = CHR ''-'' \<or> hd s1 = CHR ''+''));
          s2 = (if signed then tl s1 else s1);
          v = int (decimal (takeWhile isdigit s2))
      in if s1 \<noteq> [] \<and> hd s1 = CHR ''-'' then max (- (2 ^ 63)) (- v) else min (2 ^ 63 - 1) v)"

definition strtoul :: "string \<Rightarrow> nat \<times> nat" where
  "strtoul s =
     (let ws = takeWhile isspace s;
          s1 = dropWhile isspace s;
          signed = (s1 \<noteq> [] \<and> (hd s1 = CHR ''-'' \<or> hd s1 = CHR ''+''));
          s2 = (if signed then tl s1 else s1);
          ds = takeWhile isdigit s2;
          v = int (decimal ds)
      in if ds = [] then (0, 0)
         else (nat (if 2 ^ 64 \<le> v then 2 ^ 64 - 1
                    else if s1 \<noteq> [] \<and> hd s1 = CHR ''-'' then (2 ^ 64 - v) mod 2 ^ 64
                    else v),
               length ws + (if signed then 1 else 0) + length ds))"

text \<open>
  A \<open>double\<close> is its 64 bits. The embedding does not compute floating-point
  conversions: \<open>strtod\<close> and the \<open>%lf\<close> conversion of \<open>sprintf\<close> are parameters of the
  functions that call them. Multiplying by the lexer's \<open>sign\<close>, which is 1 or -1, is
  exact in IEEE 754: it keeps the value or flips the sign bit.
\<close>

type_synonym double = "64 word"

definition times_sign :: "double \<Rightarrow> int \<Rightarrow> double" where
  "times_sign d sign = (if sign = - 1 then d XOR push_bit 63 1 else d)"

section \<open>The value model\<close>

text \<open>
  \<open>struct cjson_element\<close> is a tag and a union. The model keeps the two apart, as the
  code does: the payload records which member of the union was written, so an element
  whose tag does not match its payload is a value of the model. A \<open>cjson_element *\<close>
  is a \<open>cjson_element option\<close>, \<open>None\<close> for \<open>NULL\<close>. \<open>Zeroed\<close> is the union as
  \<open>calloc\<close> leaves it.

  An array is the list of its \<open>size\<close> written slots and its \<open>capacity\<close>. A map is the
  list of its \<open>capacity\<close> buckets, \<open>items\<close>; a bucket is the chain of its entries from the
  head, each a stored name and an element pointer (the \<open>next\<close> pointer of an entry is
  the rest of the list).
\<close>

datatype element_type =
    CJSON_NULL
  | CJSON_BOOL
  | CJSON_INTEGER
  | CJSON_FLOAT
  | CJSON_STRING
  | CJSON_ARRAY
  | CJSON_OBJECT

datatype cjson_element = Element (element_type: element_type) (payload: cjson_value)
  and cjson_value =
    Zeroed
  | VBoolean bool
  | VInteger "32 word"
  | VFraction double
  | VString "string option"
  | VArray "cjson_element option list" nat
  | VObject "(string \<times> cjson_element option) list list"

type_synonym cjson_map_item = "string \<times> cjson_element option"

type_synonym cjson_map = "cjson_map_item list list"

record 'e cjson_array =
  elements :: "'e list"
  capacity :: nat

definition array_size :: "'e cjson_array \<Rightarrow> nat" where
  "array_size a = length (elements a)"

subsection \<open>Constructors, predicates and accessors\<close>

definition cjson_create_null :: cjson_element where
  "cjson_create_null = Element CJSON_NULL Zeroed"

definition cjson_create_bool :: "bool \<Rightarrow> cjson_element" where
  "cjson_create_bool v = Element CJSON_BOOL (VBoolean v)"

definition cjson_create_integer :: "32 word \<Rightarrow> cjson_element" where
  "cjson_create_integer v = Element CJSON_INTEGER (VInteger v)"

definition cjson_create_float :: "double \<Rightarrow> cjson_element" where
  "cjson_create_float v = Element CJSON_FLOAT (VFraction v)"

definition cjson_create_string :: "string \<Rightarrow> cjson_element" where
  "cjson_create_string v = Element CJSON_STRING (VString (Some (strdup v)))"

definition cjson_create_array :: cjson_element where
  "cjson_create_array = Element CJSON_ARRAY (VArray [] 0)"

definition cjson_create_object :: "nat \<Rightarrow> cjson_element" where
  "cjson_create_object cap = Element CJSON_OBJECT (VObject (replicate cap []))"

definition cjson_is_null :: "cjson_element \<Rightarrow> bool" where
  "cjson_is_null e = (element_type e = CJSON_NULL)"

definition cjson_is_bool :: "cjson_element \<Rightarrow> bool" where
  "cjson_is_bool e = (element_type e = CJSON_BOOL)"

definition cjson_is_integer :: "cjson_element \<Rightarrow> bool" where
  "cjson_is_integer e = (element_type e = CJSON_INTEGER)"

definition cjson_is_float :: "cjson_element \<Rightarrow> bool" where
  "cjson_is_float e = (element_type e = CJSON_FLOAT)"

definition cjson_is_string :: "cjson_element \<Rightarrow> bool" where
  "cjson_is_string e = (element_type e = CJSON_STRING)"

definition cjson_is_array :: "cjson_element \<Rightarrow> bool" where
  "cjson_is_array e = (element_type e = CJSON_ARRAY)"

definition cjson_is_object :: "cjson_element \<Rightarrow> bool" where
  "cjson_is_object e = (element_type e = CJSON_OBJECT)"

text \<open>
  The accessors assert the tag and hand out the union member of that tag. Reading a
  member other than the one written reinterprets its bytes; the embedding does not
  model the layout and stops there with \<open>Inactive_member_read\<close>.
\<close>

definition cjson_as_array :: "cjson_element \<Rightarrow> cjson_element option cjson_array result" where
  "cjson_as_array e =
     (if \<not> cjson_is_array e then Inl Assertion_failed
      else case payload e of
             VArray es cap \<Rightarrow> Inr \<lparr>elements = es, capacity = cap\<rparr>
           | _ \<Rightarrow> Inl Inactive_member_read)"

definition cjson_as_object :: "cjson_element \<Rightarrow> cjson_map result" where
  "cjson_as_object e =
     (if element_type e \<noteq> CJSON_OBJECT then Inl Assertion_failed
      else case payload e of
             VObject m \<Rightarrow> Inr m
           | _ \<Rightarrow> Inl Inactive_member_read)"

definition cjson_as_integer :: "cjson_element \<Rightarrow> 32 word result" where
  "cjson_as_integer e =
     (if \<not> cjson_is_integer e then Inl Assertion_failed
      else case payload e of
             VInteger v \<Rightarrow> Inr v
           | _ \<Rightarrow> Inl Inactive_member_read)"

section \<open>The array container\<close>

text \<open>
  \<open>cjson_array_append\<close>: the first append allocates 8 slots, a full array doubles.
  Allocation is taken to succeed. Every array the library builds has
  \<open>size \<le> capacity\<close> (\<open>array_inv\<close>); \<open>cjson_array_append\<close> writes slot \<open>size\<close>, which
  lies inside the allocation exactly under that invariant.
\<close>

definition array_inv :: "'e cjson_array \<Rightarrow> bool" where
  "array_inv a = (length (elements a) \<le> capacity a)"

definition cjson_array_append :: "'e cjson_array \<Rightarrow> 'e \<Rightarrow> 'e cjson_array" where
  "cjson_array_append a e =
     (let cap1 = (if capacity a = 0 then 8 else capacity a);
          cap2 = (if length (elements a) = cap1 then cap1 * 2 else cap1)
      in \<lparr>elements = elements a @ [e], capacity = cap2\<rparr>)"

text \<open>
  The loop of \<open>cjson_array_insert\<close>: while \<open>current > index\<close>, swap slots
  \<open>current - 1\<close> and \<open>current\<close> and step down.
\<close>

fun insert_loop :: "'e list \<Rightarrow> nat \<Rightarrow> nat \<Rightarrow> 'e list" where
  "insert_loop es current index =
     (if current > index
      then insert_loop (es[current - 1 := es ! current, current := es ! (current - 1)])
             (current - 1) index
      else es)"

declare insert_loop.simps [simp del]

definition cjson_array_insert :: "'e cjson_array \<Rightarrow> 'e \<Rightarrow> nat \<Rightarrow> 'e cjson_array" where
  "cjson_array_insert a e index =
     (let a1 = cjson_array_append a e;
          current = array_size a1 - 1
      in a1\<lparr>elements := insert_loop (elements a1) current index\<rparr>)"

section \<open>Releasing a tree\<close>

text \<open>
  \<open>cjson_delete\<close> frees memory, which a value model does not observe; what the model
  keeps is where it stops: it dereferences its argument, so a null pointer anywhere
  it walks is a fault. A string frees its buffer (\<open>free(NULL)\<close> is allowed), an array
  deletes its slots in order, an object its entries bucket by bucket and chain by
  chain, the order in which its iterator yields them.
\<close>

primrec cjson_delete_element :: "cjson_element \<Rightarrow> unit result"
  and delete_value :: "cjson_value \<Rightarrow> element_type \<Rightarrow> unit result"
  and cjson_delete :: "cjson_element option \<Rightarrow> unit result"
  and delete_elements :: "cjson_element option list \<Rightarrow> unit result"
  and delete_item :: "string \<times> cjson_element option \<Rightarrow> unit result"
  and delete_chain :: "(string \<times> cjson_element option) list \<Rightarrow> unit result"
  and delete_items :: "(string \<times> cjson_element option) list list \<Rightarrow> unit result"
where
  "cjson_delete_element (Element t v) = delete_value v t"
| "delete_value Zeroed t = Inr ()"
| "delete_value (VBoolean b) t =
     (if t \<in> {CJSON_STRING, CJSON_ARRAY, CJSON_OBJECT} then Inl Inactive_member_read else Inr ())"
| "delete_value (VInteger i) t =
     (if t \<in> {CJSON_STRING, CJSON_ARRAY, CJSON_OBJECT} then Inl Inactive_member_read else Inr ())"
| "delete_value (VFraction d) t =
     (if t \<in> {CJSON_STRING, CJSON_ARRAY, CJSON_OBJECT} then Inl Inactive_member_read else Inr ())"
| "delete_value (VString s) t =
     (if t \<in> {CJSON_ARRAY, CJSON_OBJECT} then Inl Inactive_member_read else Inr ())"
| "delete_value (VArray es cap) t =
     (if t = CJSON_ARRAY then delete_elements es
      else if t \<in> {CJSON_STRING, CJSON_OBJECT} then Inl Inactive_member_read else Inr ())"
| "delete_value (VObject m) t =
     (if t = CJSON_OBJECT then delete_items m
      else if t \<in> {CJSON_STRING, CJSON_ARRAY} then Inl Inactive_member_read else Inr ())"
| "cjson_delete None = Inl Null_dereference"
| "cjson_delete (Some e) = cjson_delete_element e"
| "delete_elements [] = Inr ()"
| "delete_elements (x # xs) = bind_result (cjson_delete x) (\<lambda>_. delete_elements xs)"
| "delete_item (n, x) = cjson_delete x"
| "delete_chain [] = Inr ()"
| "delete_chain (item # rest) = bind_result (delete_item item) (\<lambda>_. delete_chain rest)"
| "delete_items [] = Inr ()"
| "delete_items (c # cs) = bind_result (delete_chain c) (\<lambda>_. delete_items cs)"

section \<open>The object map\<close>

text \<open>
  \<open>cjson_hash\<close> runs in \<open>size_t\<close>, 64 bits, wrapping: \<open>res = (res << 3) + str[i]\<close>.
  \<open>str[i]\<close> is a plain \<open>char\<close>, signed on the x86-64 ABI, so a byte from 128 up is
  added as a negative number.
\<close>

definition size_t_of_char :: "char \<Rightarrow> 64 word" where
  "size_t_of_char c =
     (if of_char c < (128 :: nat) then of_nat (of_char c) else of_nat (of_char c) - 256)"

definition cjson_hash :: "string \<Rightarrow> 64 word" where
  "cjson_hash str = foldl (\<lambda>res c. push_bit 3 res + size_t_of_char c) 0 (c_str str)"

text \<open>
  The scan of a chain, \<open>while (item != NULL && strcmp(item->name, name) != 0)\<close>
  \<open>item = item->next\<close>, leaves \<open>item\<close> at the first entry of that name: the chain from
  that entry on, or \<open>[]\<close> for \<open>NULL\<close>. The modulo by a capacity of 0 is the fault
  \<open>Division_by_zero\<close>.
\<close>

definition chain_scan :: "cjson_map_item list \<Rightarrow> string \<Rightarrow> cjson_map_item list" where
  "chain_scan c name = dropWhile (\<lambda>item. \<not> strcmp_eq (fst item) name) c"

definition chain_skipped :: "cjson_map_item list \<Rightarrow> string \<Rightarrow> cjson_map_item list" where
  "chain_skipped c name = takeWhile (\<lambda>item. \<not> strcmp_eq (fst item) name) c"

definition cjson_map_insert :: "cjson_map \<Rightarrow> string \<Rightarrow> cjson_element option \<Rightarrow> cjson_map result" where
  "cjson_map_insert m name element =
     (if length m = 0 then Inl Division_by_zero
      else let h = unat (cjson_hash name) mod length m
           in case chain_scan (m ! h) name of
                [] \<Rightarrow> Inr (m[h := (strdup name, element) # m ! h])
              | (stored, old) # rest \<Rightarrow>
                  bind_result (cjson_delete old)
                    (\<lambda>_. Inr (m[h := chain_skipped (m ! h) name @ (stored, element) # rest])))"

definition cjson_object_get :: "cjson_map \<Rightarrow> string \<Rightarrow> cjson_element option result" where
  "cjson_object_get m name =
     (if length m = 0 then Inl Division_by_zero
      else let h = unat (cjson_hash name) mod length m
           in case chain_scan (m ! h) name of
                [] \<Rightarrow> Inr None
              | (stored, element) # rest \<Rightarrow> Inr element)"

definition cjson_object_insert :: "cjson_map \<Rightarrow> string \<Rightarrow> cjson_element option \<Rightarrow> cjson_map result" where
  "cjson_object_insert m name element = cjson_map_insert m name element"

text \<open>
  The entries of a map in storage order, and the invariant of every map the library
  builds from \<open>cjson_create_object\<close> by insertions: an entry sits in the bucket of its
  name's hash, and no two entries of a bucket carry the same name.
\<close>

definition map_entries :: "cjson_map \<Rightarrow> cjson_map_item list" where
  "map_entries m = concat m"

definition map_inv :: "cjson_map \<Rightarrow> bool" where
  "map_inv m =
     list_all
       (\<lambda>(h, c). distinct (map (\<lambda>item. c_str (fst item)) c) \<and>
                 list_all (\<lambda>item. unat (cjson_hash (fst item)) mod length m = h) c)
       (zip [0 ..< length m] m)"

subsection \<open>The iterator\<close>

text \<open>
  The iterator holds the map, a bucket index and a pointer to the current entry; the
  pointer is the chain from that entry on. \<open>first_nonempty m i\<close> is the loop that both
  functions run: the first bucket from \<open>i\<close> on that is not empty, or the index the loop
  ends on.
\<close>

record cjson_object_iterator =
  it_name :: "string option"
  it_element :: "cjson_element option"
  it_end :: bool
  it_map :: cjson_map
  it_i :: nat
  it_item :: "cjson_map_item list"

function first_nonempty :: "cjson_map \<Rightarrow> nat \<Rightarrow> nat" where
  "first_nonempty m i =
     (if i < length m then (if m ! i \<noteq> [] then i else first_nonempty m (i + 1)) else i)"
  by pat_completeness auto
termination
  by (relation "measure (\<lambda>(m, i). length m - i)") auto

declare first_nonempty.simps [simp del]

definition cjson_iterate_object :: "cjson_map \<Rightarrow> cjson_object_iterator" where
  "cjson_iterate_object m =
     (let i = first_nonempty m 0;
          first = (if i < length m then m ! i else [])
      in case first of
           [] \<Rightarrow> \<lparr>it_name = None, it_element = None, it_end = True, it_map = m, it_i = i,
                   it_item = []\<rparr>
         | (n, e) # rest \<Rightarrow>
               \<lparr>it_name = Some n, it_element = e, it_end = False, it_map = m, it_i = i,
                it_item = first\<rparr>)"

definition cjson_iterate_next :: "cjson_object_iterator \<Rightarrow> cjson_object_iterator result" where
  "cjson_iterate_next it =
     (if it_end it then Inr it
      else case it_item it of
             [] \<Rightarrow> Inl Null_dereference
           | current # next \<Rightarrow>
               (let it1 =
                  (case next of
                     (n, e) # rest \<Rightarrow> it\<lparr>it_item := next, it_name := Some n, it_element := e\<rparr>
                   | [] \<Rightarrow>
                       (let j = first_nonempty (it_map it) (it_i it + 1)
                        in if j < length (it_map it)
                           then (case it_map it ! j of
                                   (n, e) # rest \<Rightarrow>
                                     it\<lparr>it_i := j, it_item := it_map it ! j,
                                        it_name := Some n, it_element := e\<rparr>
                                 | [] \<Rightarrow> it\<lparr>it_i := j\<rparr>)
                           else it\<lparr>it_i := j\<rparr>))
                in Inr (if it_i it1 = length (it_map it1) then it1\<lparr>it_end := True\<rparr> else it1)))"

text \<open>\<open>k\<close> calls of \<open>cjson_iterate_next\<close>, each on the iterator the call before left.\<close>

fun iterate_steps :: "nat \<Rightarrow> cjson_object_iterator \<Rightarrow> cjson_object_iterator result" where
  "iterate_steps 0 it = Inr it"
| "iterate_steps (Suc k) it = bind_result (cjson_iterate_next it) (iterate_steps k)"

definition it_at :: "cjson_map \<Rightarrow> nat \<Rightarrow> cjson_object_iterator \<Rightarrow> bool" where
  "it_at m k it =
     (it_map it = m \<and> \<not> it_end it \<and> it_i it < length m \<and> it_item it \<noteq> [] \<and>
      it_item it @ concat (drop (it_i it + 1) m) = drop k (concat m) \<and>
      it_name it = Some (fst (hd (it_item it))) \<and> it_element it = snd (hd (it_item it)))"

section \<open>The lexer\<close>

text \<open>
  A token carries its kind, the \<open>content_len\<close> bytes that \<open>content\<close> points at, and the
  two number fields, which only a number token assigns (another token leaves in them
  what the last number left). The lexer holds the text, whose readable bytes are the
  string and its terminating NUL, the cursor and the look-ahead token.
\<close>

datatype token_type =
    CJSON_TOK_ERROR
  | CJSON_TOK_NONE
  | CJSON_TOK_EOF
  | CJSON_TOK_INTEGER
  | CJSON_TOK_FLOAT
  | CJSON_TOK_STRING
  | CJSON_TOK_TRUE
  | CJSON_TOK_FALSE
  | CJSON_TOK_NULL
  | CJSON_TOK_COLON
  | CJSON_TOK_COMMA
  | CJSON_TOK_LBRACE
  | CJSON_TOK_RBRACE
  | CJSON_TOK_LBRACK
  | CJSON_TOK_RBRACK

record cjson_token =
  tok_type :: token_type
  tok_content :: string
  tok_content_len :: nat
  tok_integer_value :: "32 word"
  tok_float_value :: double

record cjson_lexer =
  content :: string
  location :: nat
  token :: cjson_token

definition zero_token :: cjson_token where
  "zero_token = \<lparr>tok_type = CJSON_TOK_NONE, tok_content = [], tok_content_len = 0,
                  tok_integer_value = 0, tok_float_value = 0\<rparr>"

text \<open>\<open>input[k]\<close> for \<open>k\<close> up to the terminator: the byte, or NUL at the end.\<close>

definition byte_at :: "string \<Rightarrow> nat \<Rightarrow> char" where
  "byte_at input k = (if k < length input then input ! k else NUL)"

text \<open>
  The loop of the string case, from \<open>input[token_len]\<close> on: \<open>cs\<close> are the bytes there.
  It stops at the closing quote, at an escape it does not know (\<open>goto token_error\<close>,
  with \<open>token_len\<close> as it stands) or at \<open>\u\<close> (\<open>TODO()\<close>, a failed \<open>assert\<close>). The
  terminating NUL is neither a quote nor a backslash, so the loop steps over it and
  reads on past the end of the text.
\<close>

fun scan_string :: "string \<Rightarrow> nat \<Rightarrow> (token_type \<times> nat) result" where
  "scan_string [] token_len = Inl Out_of_bounds_read"
| "scan_string (c # cs) token_len =
     (if c = CHR ''\"'' then Inr (CJSON_TOK_STRING, token_len + 1)
      else if c = CHR 0x5C then
        (case cs of
           [] \<Rightarrow> Inr (CJSON_TOK_ERROR, token_len)
         | e # es \<Rightarrow>
             if e \<in> set ''\"/bfnrt'' \<or> e = CHR 0x5C then scan_string es (token_len + 2)
             else if e = CHR ''u'' then Inl Assertion_failed
             else Inr (CJSON_TOK_ERROR, token_len))
      else scan_string cs (token_len + 1))"

text \<open>
  The number case. \<open>strtol\<close> reads the sign itself, and the result is multiplied by
  \<open>sign\<close> again; the product is converted from \<open>long\<close> to \<open>int\<close>, which keeps its low 32
  bits. In the float case \<open>token_len\<close> ends on the last digit of the fraction, not after
  it.
\<close>

definition read_number :: "(string \<Rightarrow> double) \<Rightarrow> string \<Rightarrow> cjson_token \<Rightarrow> cjson_token \<times> nat" where
  "read_number strtod input tok =
     (let sign = (if byte_at input 0 = CHR ''-'' then - 1 else 1);
          token_len = (if byte_at input 0 \<noteq> CHR ''0''
                       then 1 + length (takeWhile isdigit (drop 1 input)) else 1);
          tok1 = tok\<lparr>tok_type := CJSON_TOK_INTEGER,
                     tok_integer_value := word_of_int (strtol input * sign)\<rparr>
      in if byte_at input token_len = CHR ''.'' \<and> isdigit (byte_at input (token_len + 1))
         then (tok1\<lparr>tok_type := CJSON_TOK_FLOAT,
                    tok_float_value := times_sign (strtod input) sign\<rparr>,
               token_len + 1 + length (takeWhile isdigit (drop (token_len + 2) input)))
         else (tok1, token_len))"

definition read_token :: "(string \<Rightarrow> double) \<Rightarrow> string \<Rightarrow> cjson_token \<Rightarrow> (cjson_token \<times> nat) result" where
  "read_token strtod input tok =
     (let c = byte_at input 0 in
      if c = CHR ''-'' \<or> isdigit c then Inr (read_number strtod input tok)
      else if c = CHR ''f'' then
        (if take 5 input = ''false'' then Inr (tok\<lparr>tok_type := CJSON_TOK_FALSE\<rparr>, 5)
         else Inr (tok\<lparr>tok_type := CJSON_TOK_ERROR\<rparr>, 0))
      else if c = CHR ''n'' then
        (if take 4 input = ''null'' then Inr (tok\<lparr>tok_type := CJSON_TOK_NULL\<rparr>, 4)
         else Inr (tok\<lparr>tok_type := CJSON_TOK_ERROR\<rparr>, 0))
      else if c = CHR ''t'' then
        (if take 4 input = ''true'' then Inr (tok\<lparr>tok_type := CJSON_TOK_TRUE\<rparr>, 4)
         else Inr (tok\<lparr>tok_type := CJSON_TOK_ERROR\<rparr>, 0))
      else if c = CHR '','' then Inr (tok\<lparr>tok_type := CJSON_TOK_COMMA\<rparr>, 1)
      else if c = CHR '':'' then Inr (tok\<lparr>tok_type := CJSON_TOK_COLON\<rparr>, 1)
      else if c = CHR ''['' then Inr (tok\<lparr>tok_type := CJSON_TOK_LBRACK\<rparr>, 1)
      else if c = CHR '']'' then Inr (tok\<lparr>tok_type := CJSON_TOK_RBRACK\<rparr>, 1)
      else if c = CHR ''{'' then Inr (tok\<lparr>tok_type := CJSON_TOK_LBRACE\<rparr>, 1)
      else if c = CHR ''}'' then Inr (tok\<lparr>tok_type := CJSON_TOK_RBRACE\<rparr>, 1)
      else if c = CHR ''\"'' then
        bind_result (scan_string (drop 1 input) 1) (\<lambda>(ty, n). Inr (tok\<lparr>tok_type := ty\<rparr>, n))
      else if c = NUL then Inr (tok\<lparr>tok_type := CJSON_TOK_EOF\<rparr>, 0)
      else Inr (tok\<lparr>tok_type := CJSON_TOK_ERROR\<rparr>, 0))"

definition cjson_read_next_token :: "(string \<Rightarrow> double) \<Rightarrow> cjson_lexer \<Rightarrow> cjson_lexer result" where
  "cjson_read_next_token strtod lexer =
     (if length (content lexer) < location lexer then Inl Out_of_bounds_read
      else let input = drop (location lexer) (content lexer)
           in bind_result (read_token strtod input (token lexer))
                (\<lambda>(tok, token_len).
                   Inr (lexer\<lparr>token := tok\<lparr>tok_content := take token_len input,
                                           tok_content_len := token_len\<rparr>,
                              location := location lexer + token_len\<rparr>)))"

text \<open>
  \<open>cjson_lexer_peek\<close> returns the token of the lexer it leaves; \<open>cjson_lexer_pop\<close>
  returns the token and marks it consumed.
\<close>

definition cjson_lexer_peek :: "(string \<Rightarrow> double) \<Rightarrow> cjson_lexer \<Rightarrow> cjson_lexer result" where
  "cjson_lexer_peek strtod lexer =
     (if tok_type (token lexer) = CJSON_TOK_NONE then cjson_read_next_token strtod lexer
      else Inr lexer)"

definition cjson_lexer_pop :: "(string \<Rightarrow> double) \<Rightarrow> cjson_lexer \<Rightarrow> (cjson_token \<times> cjson_lexer) result" where
  "cjson_lexer_pop strtod lexer =
     bind_result (cjson_lexer_peek strtod lexer)
       (\<lambda>lexer1. Inr (token lexer1,
                       lexer1\<lparr>token := (token lexer1)\<lparr>tok_type := CJSON_TOK_NONE\<rparr>\<rparr>))"

definition cjson_parse_ws :: "cjson_lexer \<Rightarrow> cjson_lexer" where
  "cjson_parse_ws lexer =
     lexer\<lparr>location :=
       location lexer + length (takeWhile isspace (drop (location lexer) (content lexer)))\<rparr>"

text \<open>
  \<open>cjson_extract_string\<close>: the loop over \<open>content[i]\<close> for \<open>1 \<le> i < content_len - 1\<close>;
  \<open>cs\<close> are the bytes from \<open>content[i]\<close> on and \<open>n\<close> the number of indices left. The
  result is \<open>NULL\<close> at an escape the switch has no case for, which includes \<open>\r\<close>. The
  assertion compares the token kind with \<open>CJSON_STRING\<close>, the element tag, whose value
  4 is that of \<open>CJSON_TOK_STRING\<close>.
\<close>

fun extract_loop :: "string \<Rightarrow> nat \<Rightarrow> string option result" where
  "extract_loop cs 0 = Inr (Some [])"
| "extract_loop [] (Suc n) = Inl Out_of_bounds_read"
| "extract_loop (c # cs) (Suc n) =
     (if c = CHR 0x5C then
        (case cs of
           [] \<Rightarrow> Inl Out_of_bounds_read
         | e # es \<Rightarrow>
             (let put = (\<lambda>b. bind_result (extract_loop es (n - 1))
                               (\<lambda>r. Inr (map_option ((#) b) r)))
              in if e = CHR ''\"'' then put (CHR ''\"'')
                 else if e = CHR 0x5C then put (CHR 0x5C)
                 else if e = CHR ''/'' then put (CHR ''/'')
                 else if e = CHR ''b'' then put (CHR 0x08)
                 else if e = CHR ''f'' then put (CHR 0x0C)
                 else if e = CHR ''n'' then put (CHR 0x0A)
                 else if e = CHR ''t'' then put (CHR 0x09)
                 else if e = CHR ''u'' then Inl Assertion_failed
                 else Inr None))
      else bind_result (extract_loop cs n) (\<lambda>r. Inr (map_option ((#) c) r)))"

definition cjson_extract_string :: "cjson_token \<Rightarrow> string option result" where
  "cjson_extract_string tok =
     (if tok_type tok \<noteq> CJSON_TOK_STRING then Inl Assertion_failed
      else bind_result (extract_loop (drop 1 (tok_content tok)) (tok_content_len tok - 2))
             (\<lambda>r. Inr (map_option c_str r)))"


section \<open>The parser\<close>

text \<open>
  The parser threads the lexer and the \<open>int *error\<close> flag (a \<open>bool\<close> here) through
  every call. Its functions call one another only through \<open>cjson_parse_element\<close>: the
  ones that call it take it as the parameter \<open>element\<close>, and \<open>cjson_parse_element\<close>
  itself is defined by recursion on a bound \<open>fuel\<close> of nested calls; the two \<open>while\<close>
  loops count their rounds against the same bound. \<open>strtod\<close> is the C library's.

  \<open>cjson_parse_member\<close>: the member name is the token without its quotes, not
  unescaped.
\<close>

type_synonym parse_result = "(cjson_element option \<times> cjson_lexer \<times> bool) result"

type_synonym element_parser = "cjson_lexer \<Rightarrow> bool \<Rightarrow> parse_result"

definition cjson_parse_member ::
  "(string \<Rightarrow> double) \<Rightarrow> element_parser \<Rightarrow> cjson_lexer \<Rightarrow> cjson_map \<Rightarrow> bool
     \<Rightarrow> (cjson_lexer \<times> cjson_map \<times> bool) result" where
  "cjson_parse_member strtod element lexer m error =
     bind_result (cjson_lexer_pop strtod (cjson_parse_ws lexer)) (\<lambda>(str, lexer1).
       if tok_type str \<noteq> CJSON_TOK_STRING then Inr (lexer1, m, True)
       else
         let name = strndup (drop 1 (tok_content str)) (tok_content_len str - 2) in
         bind_result (cjson_lexer_peek strtod (cjson_parse_ws lexer1)) (\<lambda>lexer2.
           if tok_type (token lexer2) \<noteq> CJSON_TOK_COLON then Inr (lexer2, m, True)
           else
             bind_result (cjson_lexer_pop strtod lexer2) (\<lambda>(colon, lexer3).
             bind_result (element lexer3 error) (\<lambda>(elt, lexer4, error1).
             bind_result (cjson_map_insert m name elt) (\<lambda>m1.
               Inr (lexer4, m1, error1))))))"

fun parse_members_loop ::
  "nat \<Rightarrow> (string \<Rightarrow> double) \<Rightarrow> element_parser \<Rightarrow> cjson_lexer \<Rightarrow> cjson_map \<Rightarrow> bool
     \<Rightarrow> (cjson_lexer \<times> cjson_map \<times> bool) result" where
  "parse_members_loop 0 strtod element lexer m error = Inl Out_of_fuel"
| "parse_members_loop (Suc k) strtod element lexer m error =
     (if error then Inr (lexer, m, error)
      else
        bind_result (cjson_lexer_peek strtod lexer) (\<lambda>lexer1.
          if tok_type (token lexer1) = CJSON_TOK_COMMA then
            bind_result (cjson_lexer_pop strtod lexer1) (\<lambda>(comma, lexer2).
            bind_result (cjson_parse_member strtod element lexer2 m error) (\<lambda>(lexer3, m1, error1).
              parse_members_loop k strtod element lexer3 m1 error1))
          else Inr (lexer1, m, error)))"

definition cjson_parse_members ::
  "nat \<Rightarrow> (string \<Rightarrow> double) \<Rightarrow> element_parser \<Rightarrow> cjson_lexer \<Rightarrow> cjson_map \<Rightarrow> bool
     \<Rightarrow> (cjson_lexer \<times> cjson_map \<times> bool) result" where
  "cjson_parse_members fuel strtod element lexer m error =
     bind_result (cjson_parse_member strtod element lexer m error) (\<lambda>(lexer1, m1, error1).
       parse_members_loop fuel strtod element lexer1 m1 error1)"

text \<open>
  \<open>cjson_parse_object\<close>: the map has 64 buckets. Only a token other than \<open>}\<close> at the
  end makes it delete the object and return \<open>NULL\<close>.
\<close>

definition cjson_parse_object ::
  "nat \<Rightarrow> (string \<Rightarrow> double) \<Rightarrow> element_parser \<Rightarrow> cjson_lexer \<Rightarrow> bool \<Rightarrow> parse_result" where
  "cjson_parse_object fuel strtod element lexer error =
     bind_result (cjson_lexer_pop strtod lexer) (\<lambda>(lbrace, lexer1).
     bind_result (cjson_lexer_peek strtod (cjson_parse_ws lexer1)) (\<lambda>lexer2.
     bind_result
       (if \<not> error \<and> tok_type (token lexer2) \<noteq> CJSON_TOK_RBRACE
        then cjson_parse_members fuel strtod element lexer2 (replicate 64 []) error
        else Inr (lexer2, replicate 64 [], error)) (\<lambda>(lexer3, m, error1).
     bind_result (cjson_lexer_pop strtod lexer3) (\<lambda>(tok, lexer4).
       if tok_type tok \<noteq> CJSON_TOK_RBRACE then
         bind_result (cjson_delete (Some (Element CJSON_OBJECT (VObject m))))
           (\<lambda>_. Inr (None, lexer4, error1))
       else Inr (Some (Element CJSON_OBJECT (VObject m)), lexer4, error1)))))"

text \<open>
  \<open>cjson_parse_array\<close> appends whatever \<open>cjson_parse_element\<close> returned, a null pointer
  included.
\<close>

fun parse_array_loop ::
  "nat \<Rightarrow> (string \<Rightarrow> double) \<Rightarrow> element_parser \<Rightarrow> cjson_lexer
     \<Rightarrow> cjson_element option cjson_array \<Rightarrow> bool
     \<Rightarrow> (cjson_lexer \<times> cjson_element option cjson_array \<times> bool) result" where
  "parse_array_loop 0 strtod element lexer a error = Inl Out_of_fuel"
| "parse_array_loop (Suc k) strtod element lexer a error =
     (if error then Inr (lexer, a, error)
      else
        bind_result (cjson_lexer_peek strtod lexer) (\<lambda>lexer1.
          if tok_type (token lexer1) = CJSON_TOK_COMMA then
            bind_result (cjson_lexer_pop strtod lexer1) (\<lambda>(comma, lexer2).
            bind_result (element lexer2 error) (\<lambda>(elt, lexer3, error1).
              parse_array_loop k strtod element lexer3 (cjson_array_append a elt) error1))
          else Inr (lexer1, a, error)))"

definition array_element :: "cjson_element option cjson_array \<Rightarrow> cjson_element" where
  "array_element a = Element CJSON_ARRAY (VArray (elements a) (capacity a))"

definition cjson_parse_array ::
  "nat \<Rightarrow> (string \<Rightarrow> double) \<Rightarrow> element_parser \<Rightarrow> cjson_lexer \<Rightarrow> bool \<Rightarrow> parse_result" where
  "cjson_parse_array fuel strtod element lexer error =
     bind_result (cjson_lexer_pop strtod lexer) (\<lambda>(lbrack, lexer1).
       let a0 = \<lparr>elements = [], capacity = 0\<rparr>;
           lexer2 = cjson_parse_ws lexer1;
           finish = (\<lambda>lexer9 a error9.
             bind_result (cjson_lexer_pop strtod lexer9) (\<lambda>(rbrack, lexer10).
               Inr (Some (array_element a), lexer10, error9)))
       in
       if error then finish lexer2 a0 error
       else
         bind_result (cjson_lexer_peek strtod lexer2) (\<lambda>lexer3.
           if tok_type (token lexer3) \<noteq> CJSON_TOK_RBRACK then
             bind_result (element lexer3 error) (\<lambda>(elt, lexer4, error1).
             bind_result (parse_array_loop fuel strtod element lexer4 (cjson_array_append a0 elt) error1)
               (\<lambda>(lexer5, a, error2).
             bind_result (cjson_lexer_peek strtod lexer5) (\<lambda>lexer6.
               if tok_type (token lexer6) \<noteq> CJSON_TOK_RBRACK then
                 bind_result (cjson_delete (Some (array_element a)))
                   (\<lambda>_. Inr (None, lexer6, error2))
               else finish lexer6 a error2)))
           else finish lexer3 a0 error))"

text \<open>\<open>cjson_parse_value\<close>. The float case sets the tag \<open>CJSON_INTEGER\<close>.\<close>

definition cjson_parse_value ::
  "nat \<Rightarrow> (string \<Rightarrow> double) \<Rightarrow> element_parser \<Rightarrow> cjson_lexer \<Rightarrow> bool \<Rightarrow> parse_result" where
  "cjson_parse_value fuel strtod element lexer error =
     bind_result (cjson_lexer_peek strtod lexer) (\<lambda>lexer1.
       let tok = token lexer1;
           scalar = (\<lambda>e. bind_result (cjson_lexer_pop strtod lexer1)
                            (\<lambda>(popped, lexer2). Inr (Some e, lexer2, error)))
       in
       if tok_type tok = CJSON_TOK_LBRACE then cjson_parse_object fuel strtod element lexer1 error
       else if tok_type tok = CJSON_TOK_LBRACK then cjson_parse_array fuel strtod element lexer1 error
       else if tok_type tok = CJSON_TOK_STRING then
         bind_result (cjson_extract_string tok) (\<lambda>s. scalar (Element CJSON_STRING (VString s)))
       else if tok_type tok = CJSON_TOK_INTEGER then
         scalar (Element CJSON_INTEGER (VInteger (tok_integer_value tok)))
       else if tok_type tok = CJSON_TOK_FLOAT then
         scalar (Element CJSON_INTEGER (VFraction (tok_float_value tok)))
       else if tok_type tok = CJSON_TOK_TRUE then scalar (Element CJSON_BOOL (VBoolean True))
       else if tok_type tok = CJSON_TOK_FALSE then scalar (Element CJSON_BOOL (VBoolean False))
       else if tok_type tok = CJSON_TOK_NULL then scalar (Element CJSON_NULL Zeroed)
       else Inr (None, lexer1, error))"

fun cjson_parse_element :: "nat \<Rightarrow> (string \<Rightarrow> double) \<Rightarrow> cjson_lexer \<Rightarrow> bool \<Rightarrow> parse_result" where
  "cjson_parse_element 0 strtod lexer error = Inl Out_of_fuel"
| "cjson_parse_element (Suc fuel) strtod lexer error =
     bind_result
       (cjson_parse_value fuel strtod (cjson_parse_element fuel strtod) (cjson_parse_ws lexer) error)
       (\<lambda>(v, lexer1, error1). Inr (v, cjson_parse_ws lexer1, error1))"

text \<open>
  \<open>cjson_parse_str\<close>. The text is the C string its argument points at. A nested call
  of \<open>cjson_parse_element\<close> and a round of a loop each follow a token of at least one
  byte, so the length of the text bounds both.
\<close>

definition cjson_parse_str :: "(string \<Rightarrow> double) \<Rightarrow> string \<Rightarrow> cjson_element option result" where
  "cjson_parse_str strtod str =
     (let lexer = \<lparr>content = c_str str, location = 0, token = zero_token\<rparr>
      in bind_result (cjson_parse_element (Suc (length (c_str str))) strtod lexer False)
           (\<lambda>(res, lexer1, error). if error then Inr None else Inr res))"


section \<open>The path accessor\<close>

text \<open>
  \<open>cjson_get_element_from\<close> and its two helpers, on the element pointer and the rest of
  the path. \<open>strspn\<close> measures the member name; \<open>strtoul\<close> reads the index and leaves
  \<open>endptr\<close> behind it. \<open>cjson_get_element_from_array\<close> reads \<open>array->elements[i]\<close> with
  no comparison of \<open>i\<close> with \<open>size\<close>: from \<open>size\<close> on the slot was never written or lies
  outside the allocation, and the model stops with \<open>Out_of_bounds_read\<close>.
\<close>

definition name_chars :: string where
  "name_chars = ''abcdefghijklmnopqrstuvwxyzABCDEFGHIJKLMNOPQRSTUVWXYZ_0123456789''"

definition strspn :: "string \<Rightarrow> string \<Rightarrow> nat" where
  "strspn s accept = length (takeWhile (\<lambda>c. c \<in> set accept) s)"

function cjson_get_element_from_object :: "cjson_element option \<Rightarrow> string \<Rightarrow> cjson_element option result"
  and cjson_get_element_from_array :: "cjson_element option \<Rightarrow> string \<Rightarrow> cjson_element option result"
  and cjson_get_element_from :: "cjson_element option \<Rightarrow> string \<Rightarrow> cjson_element option result"
where
  "cjson_get_element_from_object element from =
     (case element of
        None \<Rightarrow> Inl Null_dereference
      | Some e \<Rightarrow>
          if \<not> cjson_is_object e then Inl Assertion_failed
          else if \<not> (isalpha (byte_at from 1) \<or> byte_at from 1 = CHR ''_'') then Inl Assertion_failed
          else
            bind_result (cjson_as_object e) (\<lambda>object.
              let name_len = strspn (drop 1 from) name_chars;
                  name = strndup (drop 1 from) name_len
              in bind_result (cjson_object_get object name) (\<lambda>elt_at_name.
                   if elt_at_name = None then Inl Assertion_failed
                   else if byte_at from (name_len + 1) = NUL then Inr elt_at_name
                   else cjson_get_element_from elt_at_name (drop (name_len + 1) from))))"
| "cjson_get_element_from_array element from =
     (case element of
        None \<Rightarrow> Inl Null_dereference
      | Some e \<Rightarrow>
          if \<not> cjson_is_array e then Inl Assertion_failed
          else
            bind_result (cjson_as_array e) (\<lambda>array.
              let i = fst (strtoul (drop 1 from));
                  endptr = drop (1 + snd (strtoul (drop 1 from))) from
              in if byte_at endptr 0 \<noteq> CHR '']'' then Inl Assertion_failed
                 else if array_size array \<le> i then Inl Out_of_bounds_read
                 else if byte_at endptr 1 = NUL then Inr (elements array ! i)
                 else cjson_get_element_from (elements array ! i) (drop 1 endptr)))"
| "cjson_get_element_from element from =
     (if byte_at from 0 = CHR ''['' then cjson_get_element_from_array element from
      else if byte_at from 0 = CHR ''.'' then cjson_get_element_from_object element from
      else Inl Assertion_failed)"
  by pat_completeness auto
termination
proof (relation "measure (\<lambda>x. case x of
          Inl (e, from) \<Rightarrow> 2 * length from
        | Inr (Inl (e, from)) \<Rightarrow> 2 * length from
        | Inr (Inr (e, from)) \<Rightarrow> 2 * length from + 1)")
  show "wf (measure (\<lambda>x. case x of
          Inl (e, from) \<Rightarrow> 2 * length from
        | Inr (Inl (e, from)) \<Rightarrow> 2 * length from
        | Inr (Inr (e, from)) \<Rightarrow> 2 * length from + 1))"
    by simp
qed (auto simp: byte_at_def NUL_def split: if_splits)

declare cjson_get_element_from_object.simps [simp del]
declare cjson_get_element_from_array.simps [simp del]
declare cjson_get_element_from.simps [simp del]


section \<open>The serializer\<close>

text \<open>
  The string builder: the \<open>size\<close> bytes written and the capacity, 8 at the first
  byte and doubled when full. \<open>cjson_str_builder_append_cstr\<close> copies the bytes before
  the NUL of its argument and dereferences it, so \<open>NULL\<close> is a fault.
\<close>

record cjson_str_builder =
  sb_str :: string
  sb_capacity :: nat

definition cjson_str_builder_append_char :: "cjson_str_builder \<Rightarrow> char \<Rightarrow> cjson_str_builder" where
  "cjson_str_builder_append_char sb c =
     (let cap1 = (if sb_capacity sb = 0 then 8 else sb_capacity sb);
          cap2 = (if length (sb_str sb) = cap1 then cap1 * 2 else cap1)
      in \<lparr>sb_str = sb_str sb @ [c], sb_capacity = cap2\<rparr>)"

definition cjson_str_builder_append_cstr :: "cjson_str_builder \<Rightarrow> string option \<Rightarrow> cjson_str_builder result" where
  "cjson_str_builder_append_cstr sb cstr =
     (case cstr of
        None \<Rightarrow> Inl Null_dereference
      | Some s \<Rightarrow> Inr (foldl cjson_str_builder_append_char sb (c_str s)))"

text \<open>
  \<open>sprintf(buffer, "%d", v)\<close> into \<open>char buffer[11]\<close>: the decimal digits of the signed
  value, with a \<open>-\<close> for a negative one, and the terminating NUL; a conversion of more
  than 10 bytes does not fit. The \<open>%lf\<close> conversion of a \<open>double\<close> is the parameter
  \<open>lf\<close>, into the same buffer.
\<close>

fun decimal_digits :: "nat \<Rightarrow> string" where
  "decimal_digits n =
     (if n < 10 then [''0123456789'' ! n]
      else decimal_digits (n div 10) @ [''0123456789'' ! (n mod 10)])"

declare decimal_digits.simps [simp del]

definition sprintf_d :: "32 word \<Rightarrow> string" where
  "sprintf_d v =
     (if sint v < 0 then CHR ''-'' # decimal_digits (nat (- sint v))
      else decimal_digits (nat (sint v)))"

definition into_buffer :: "string \<Rightarrow> string result" where
  "into_buffer s = (if 10 < length s then Inl Buffer_overflow else Inr s)"

text \<open>
  The serializer's state is the builder and \<open>indent\<close>, the function's \<open>static\<close> counter,
  which every call leaves as it found it. \<open>pretty_newline\<close> is the block
  \<open>if (pretty) { '\n'; indent spaces }\<close>.
\<close>

type_synonym to_str_state = "cjson_str_builder \<times> nat"

type_synonym printer = "to_str_state \<Rightarrow> to_str_state result"

definition put_char :: "char \<Rightarrow> printer" where
  "put_char c = (\<lambda>(sb, indent). Inr (cjson_str_builder_append_char sb c, indent))"

definition put_cstr :: "string option \<Rightarrow> printer" where
  "put_cstr s = (\<lambda>(sb, indent).
     bind_result (cjson_str_builder_append_cstr sb s) (\<lambda>sb1. Inr (sb1, indent)))"

definition pretty_newline :: "bool \<Rightarrow> printer" where
  "pretty_newline pretty = (\<lambda>(sb, indent).
     if pretty
     then Inr (foldl cjson_str_builder_append_char (cjson_str_builder_append_char sb (CHR 0x0A))
                 (replicate indent (CHR '' '')), indent)
     else Inr (sb, indent))"

definition indent_by :: "int \<Rightarrow> printer" where
  "indent_by d = (\<lambda>(sb, indent). Inr (sb, nat (int indent + d)))"

definition then_do :: "printer \<Rightarrow> printer \<Rightarrow> printer" where
  "then_do p q = (\<lambda>st. bind_result (p st) q)"

text \<open>
  The array case: the first slot, then for each further slot a comma, the pretty
  newline and the slot. The object case is the same walk over the entries the iterator
  yields, each printed as \<open>"name":\<close> and its element. The arguments are the printers of
  the children.
\<close>

fun print_slots :: "bool \<Rightarrow> printer list \<Rightarrow> printer" where
  "print_slots pretty [] = Inr"
| "print_slots pretty (p # ps) =
     then_do (put_char (CHR '','')) (then_do (pretty_newline pretty) (then_do p (print_slots pretty ps)))"

definition print_array :: "bool \<Rightarrow> printer list \<Rightarrow> printer" where
  "print_array pretty ps =
     then_do (put_char (CHR ''['')) (then_do (indent_by 2) (then_do (pretty_newline pretty)
     (then_do (case ps of [] \<Rightarrow> Inr | p # rest \<Rightarrow> then_do p (print_slots pretty rest))
     (then_do (indent_by (- 2)) (then_do (pretty_newline pretty) (put_char (CHR '']'')))))))"

definition print_member :: "string \<times> printer \<Rightarrow> printer" where
  "print_member = (\<lambda>(name, p).
     then_do (put_char (CHR ''\"'')) (then_do (put_cstr (Some name))
     (then_do (put_cstr (Some ''\":'')) p)))"

definition print_object :: "bool \<Rightarrow> (string \<times> printer) list \<Rightarrow> printer" where
  "print_object pretty ms =
     then_do (put_char (CHR ''{'')) (then_do (indent_by 2) (then_do (pretty_newline pretty)
     (then_do (case ms of [] \<Rightarrow> Inr
               | m # rest \<Rightarrow> then_do (print_member m) (print_slots pretty (map print_member rest)))
     (then_do (indent_by (- 2)) (then_do (pretty_newline pretty) (put_char (CHR ''}'')))))))"

text \<open>
  \<open>cjson_to_str_rec\<close> switches on the tag and reads the union member of that tag.
  It dereferences its argument: \<open>dereferenced\<close> is the printer of a child pointer,
  \<open>to_str_pointer\<close> the call on a \<open>cjson_element *\<close>.
\<close>

definition dereferenced :: "printer option \<Rightarrow> printer" where
  "dereferenced p = (case p of None \<Rightarrow> (\<lambda>st. Inl Null_dereference) | Some q \<Rightarrow> q)"

primrec cjson_to_str_rec :: "cjson_element \<Rightarrow> (double \<Rightarrow> string) \<Rightarrow> bool \<Rightarrow> printer"
  and to_str_value :: "cjson_value \<Rightarrow> element_type \<Rightarrow> (double \<Rightarrow> string) \<Rightarrow> bool \<Rightarrow> printer"
where
  "cjson_to_str_rec (Element t v) lf pretty = to_str_value v t lf pretty"
| "to_str_value Zeroed t lf pretty =
     (if t = CJSON_NULL then put_cstr (Some ''null'')
      else if t = CJSON_BOOL then put_cstr (Some ''false'')
      else if t = CJSON_INTEGER then
        (\<lambda>st. bind_result (into_buffer (sprintf_d 0)) (\<lambda>b. put_cstr (Some b) st))
      else if t = CJSON_FLOAT then
        (\<lambda>st. bind_result (into_buffer (lf 0)) (\<lambda>b. put_cstr (Some b) st))
      else if t = CJSON_STRING then
        then_do (put_char (CHR ''\"'')) (then_do (put_cstr None) (put_char (CHR ''\"'')))
      else if t = CJSON_ARRAY then print_array pretty []
      else print_object pretty [])"
| "to_str_value (VBoolean b) t lf pretty =
     (if t = CJSON_NULL then put_cstr (Some ''null'')
      else if t = CJSON_BOOL then put_cstr (Some (if b then ''true'' else ''false''))
      else (\<lambda>st. Inl Inactive_member_read))"
| "to_str_value (VInteger i) t lf pretty =
     (if t = CJSON_NULL then put_cstr (Some ''null'')
      else if t = CJSON_INTEGER then
        (\<lambda>st. bind_result (into_buffer (sprintf_d i)) (\<lambda>b. put_cstr (Some b) st))
      else (\<lambda>st. Inl Inactive_member_read))"
| "to_str_value (VFraction d) t lf pretty =
     (if t = CJSON_NULL then put_cstr (Some ''null'')
      else if t = CJSON_FLOAT then
        (\<lambda>st. bind_result (into_buffer (lf d)) (\<lambda>b. put_cstr (Some b) st))
      else (\<lambda>st. Inl Inactive_member_read))"
| "to_str_value (VString s) t lf pretty =
     (if t = CJSON_NULL then put_cstr (Some ''null'')
      else if t = CJSON_STRING then
        then_do (put_char (CHR ''\"'')) (then_do (put_cstr s) (put_char (CHR ''\"'')))
      else (\<lambda>st. Inl Inactive_member_read))"
| "to_str_value (VArray es cap) t lf pretty =
     (if t = CJSON_NULL then put_cstr (Some ''null'')
      else if t = CJSON_ARRAY then
        print_array pretty
          (map dereferenced (map (map_option (\<lambda>e. cjson_to_str_rec e lf pretty)) es))
      else (\<lambda>st. Inl Inactive_member_read))"
| "to_str_value (VObject m) t lf pretty =
     (if t = CJSON_NULL then put_cstr (Some ''null'')
      else if t = CJSON_OBJECT then
        print_object pretty
          (map (map_prod id dereferenced)
             (concat (map (map (map_prod id (map_option (\<lambda>e. cjson_to_str_rec e lf pretty)))) m)))
      else (\<lambda>st. Inl Inactive_member_read))"

definition to_str_pointer :: "cjson_element option \<Rightarrow> (double \<Rightarrow> string) \<Rightarrow> bool \<Rightarrow> printer" where
  "to_str_pointer x lf pretty = dereferenced (map_option (\<lambda>e. cjson_to_str_rec e lf pretty) x)"

text \<open>
  \<open>cjson_to_str\<close> starts from an empty builder, appends the NUL and returns the
  buffer, a C string.
\<close>

definition cjson_to_str :: "(double \<Rightarrow> string) \<Rightarrow> cjson_element option \<Rightarrow> bool \<Rightarrow> string result" where
  "cjson_to_str lf element pretty =
     bind_result (to_str_pointer element lf pretty (\<lparr>sb_str = [], sb_capacity = 0\<rparr>, 0))
       (\<lambda>(sb, indent). Inr (c_str (sb_str (cjson_str_builder_append_char sb NUL))))"

section \<open>Round trips: the trees and the equality the specification speaks of\<close>

text \<open>
  Structural equality as the specification words it: scalars are equal when tag and
  value are, arrays when their slots are pairwise, in order; objects when they have
  the same member names and, under each name, equal values, whatever the order of the
  entries and the number of buckets. \<open>member_of m\<close> is the entry of a name in storage
  order.
\<close>

definition member_of :: "cjson_map \<Rightarrow> string \<Rightarrow> cjson_element option option" where
  "member_of m n = map_of (map_entries m) n"

inductive struct_eq :: "cjson_element \<Rightarrow> cjson_element \<Rightarrow> bool" where
  scalar: "t \<noteq> CJSON_ARRAY \<Longrightarrow> t \<noteq> CJSON_OBJECT \<Longrightarrow> struct_eq (Element t v) (Element t v)"
| array: "list_all2 (rel_option struct_eq) es es' \<Longrightarrow>
          struct_eq (Element CJSON_ARRAY (VArray es cap)) (Element CJSON_ARRAY (VArray es' cap'))"
| object: "(\<And>n. rel_option (rel_option struct_eq) (member_of m n) (member_of m' n)) \<Longrightarrow>
           struct_eq (Element CJSON_OBJECT (VObject m)) (Element CJSON_OBJECT (VObject m'))"

text \<open>
  The trees on which the compact text reads back: tag and payload agree; no float; an
  integer is not negative; a string or a member name has no \<open>"\<close>, no backslash and no
  NUL (the serializer writes the bytes as they are); no pointer is null; member names
  are unique within an object.
\<close>

definition clean :: "string \<Rightarrow> bool" where
  "clean s = (\<forall>c \<in> set s. c \<noteq> CHR ''\"'' \<and> c \<noteq> CHR 0x5C \<and> c \<noteq> NUL)"

primrec plain :: "cjson_element \<Rightarrow> bool"
  and plain_value :: "cjson_value \<Rightarrow> element_type \<Rightarrow> bool"
where
  "plain (Element t v) = plain_value v t"
| "plain_value Zeroed t = (t = CJSON_NULL)"
| "plain_value (VBoolean b) t = (t = CJSON_BOOL)"
| "plain_value (VInteger i) t = (t = CJSON_INTEGER \<and> 0 \<le> sint i)"
| "plain_value (VFraction d) t = False"
| "plain_value (VString s) t = (t = CJSON_STRING \<and> (case s of None \<Rightarrow> False | Some x \<Rightarrow> clean x))"
| "plain_value (VArray es cap) t =
     (t = CJSON_ARRAY \<and> None \<notin> set es \<and> list_all (pred_option plain) es)"
| "plain_value (VObject m) t =
     (t = CJSON_OBJECT \<and> distinct (map fst (concat m)) \<and>
      list_all (list_all (\<lambda>item. clean (fst item) \<and> snd item \<noteq> None)) m \<and>
      list_all (list_all (pred_prod (\<lambda>n. True) (pred_option plain))) m)"

text \<open>
  The compact text of such a tree, written out: what \<open>cjson_to_str\<close> returns for it
  (lemma \<open>to_str_render\<close>).
\<close>

definition separated :: "string list \<Rightarrow> string" where
  "separated ts = (case ts of [] \<Rightarrow> [] | x # xs \<Rightarrow> x @ concat (map (\<lambda>y. CHR '','' # y) xs))"

definition member_text :: "string \<times> string option \<Rightarrow> string" where
  "member_text = (\<lambda>(n, r). CHR ''\"'' # n @ CHR ''\"'' # CHR '':'' # (case r of None \<Rightarrow> [] | Some x \<Rightarrow> x))"

primrec render :: "cjson_element \<Rightarrow> string"
  and render_value :: "cjson_value \<Rightarrow> string"
where
  "render (Element t v) = render_value v"
| "render_value Zeroed = ''null''"
| "render_value (VBoolean b) = (if b then ''true'' else ''false'')"
| "render_value (VInteger i) = sprintf_d i"
| "render_value (VFraction d) = []"
| "render_value (VString s) = CHR ''\"'' # (case s of None \<Rightarrow> [] | Some x \<Rightarrow> x) @ [CHR ''\"'']"
| "render_value (VArray es cap) =
     CHR ''['' # separated (map (case_option [] id) (map (map_option render) es)) @ '']''"
| "render_value (VObject m) =
     CHR ''{'' # separated (map member_text
        (concat (map (map (map_prod id (map_option render))) m))) @ ''}''"

section \<open>Notions used in the proofs about the serializer and the parser\<close>

text \<open>
  A printer \<open>emits\<close> a text when, from every buffer and indentation, it returns
  without fault, has appended exactly that text and has left the indentation as it
  was.
\<close>

definition emits :: "printer \<Rightarrow> string \<Rightarrow> bool" where
  "emits p txt = (\<forall>sb i. \<exists>sb'. p (sb, i) = Inr (sb', i) \<and> sb_str sb' = sb_str sb @ txt)"

text \<open>
  A lexer over the text \<open>c\<close> is \<open>ready\<close> at \<open>u\<close> when it holds no token and \<open>u\<close> is
  what is left to read; it has \<open>held\<close> a token of kind \<open>ty\<close> when that token is
  peeked and \<open>u\<close> is what follows it.
\<close>

definition ready :: "string \<Rightarrow> cjson_lexer \<Rightarrow> string \<Rightarrow> bool" where
  "ready c L u = (content L = c \<and> tok_type (token L) = CJSON_TOK_NONE \<and>
                  location L \<le> length c \<and> drop (location L) c = u)"

definition held :: "string \<Rightarrow> cjson_lexer \<Rightarrow> token_type \<Rightarrow> string \<Rightarrow> bool" where
  "held c L ty u = (content L = c \<and> tok_type (token L) = ty \<and> ty \<noteq> CJSON_TOK_NONE \<and>
                    location L \<le> length c \<and> drop (location L) c = u)"

text \<open>
  What may follow a token: \<open>nospace\<close>, no white space to skip; \<open>nodigit\<close>, nothing
  that would extend a number; \<open>delim\<close>, the end of the text or one of \<open>, ] }\<close>.
\<close>

definition nospace :: "string \<Rightarrow> bool" where
  "nospace u = (u = [] \<or> \<not> isspace (hd u))"

definition nodigit :: "string \<Rightarrow> bool" where
  "nodigit u = (u = [] \<or> (\<not> isdigit (hd u) \<and> hd u \<noteq> CHR ''.''))"

definition delim :: "string \<Rightarrow> bool" where
  "delim u = (u = [] \<or> hd u \<in> {CHR '','', CHR '']'', CHR ''}''})"

text \<open>The kinds of token a value starts with.\<close>

definition value_start :: "token_type \<Rightarrow> bool" where
  "value_start ty = (ty \<in> {CJSON_TOK_NULL, CJSON_TOK_TRUE, CJSON_TOK_FALSE, CJSON_TOK_INTEGER,
                            CJSON_TOK_STRING, CJSON_TOK_LBRACK, CJSON_TOK_LBRACE})"

text \<open>
  \<open>cjson_parse_array\<close> and \<open>cjson_parse_object\<close> peek before they call the element
  parser, the loops call it on a lexer that holds no token: a lexer \<open>starts\<close> a text
  in either state. An element parser is right on a tree (\<open>elem_ok\<close>) when from every
  lexer that starts the tree's compact text, a delimiter after it, it returns a
  structurally equal tree with the error flag down, the lexer ready behind the text;
  \<open>value_ok\<close> says the same of \<open>cjson_parse_value\<close>.
\<close>

definition starts :: "(string \<Rightarrow> double) \<Rightarrow> string \<Rightarrow> cjson_lexer \<Rightarrow> string \<Rightarrow> bool" where
  "starts strtod c L txt =
     (ready c L txt \<or> (\<exists>L0. ready c L0 txt \<and> cjson_lexer_peek strtod L0 = Inr L))"

definition elem_ok :: "(string \<Rightarrow> double) \<Rightarrow> element_parser \<Rightarrow> cjson_element \<Rightarrow> bool" where
  "elem_ok strtod E T =
     (\<forall>c L u. starts strtod c L (render T @ u) \<longrightarrow> delim u \<longrightarrow>
        (\<exists>T' L'. E L False = Inr (Some T', L', False) \<and> ready c L' u \<and> struct_eq T' T))"

definition value_ok :: "(string \<Rightarrow> double) \<Rightarrow> nat \<Rightarrow> element_parser \<Rightarrow> cjson_element \<Rightarrow> bool" where
  "value_ok strtod k E T =
     (\<forall>c L u. ready c L (render T @ u) \<longrightarrow> delim u \<longrightarrow>
        (\<exists>T' L'. cjson_parse_value k strtod E L False = Inr (Some T', L', False) \<and>
                 ready c L' u \<and> struct_eq T' T))"

text \<open>
  Instances of the two C library parameters for the closed examples, none of which
  reads or prints a float: a \<open>strtod\<close> that returns 0 and a \<open>%lf\<close> that prints
  \<open>0.000000\<close>.
\<close>

definition strtod_zero :: "string \<Rightarrow> double" where
  "strtod_zero s = 0"

definition lf_zero :: "double \<Rightarrow> string" where
  "lf_zero d = ''0.000000''"

section \<open>Basic facts\<close>

lemma map_inv_iff:
  "map_inv m \<longleftrightarrow>
     (\<forall>h < length m.
        distinct (map (\<lambda>item. c_str (fst item)) (m ! h)) \<and>
        (\<forall>item \<in> set (m ! h). unat (cjson_hash (fst item)) mod length m = h))"
proof -
  have "set (zip [0 ..< length m] m) = {(h, m ! h) | h. h < length m}"
  proof (intro set_eqI iffI)
    fix x assume "x \<in> set (zip [0 ..< length m] m)"
    then show "x \<in> {(h, m ! h) | h. h < length m}"
      by (auto simp: set_zip)
  next
    fix x assume "x \<in> {(h, m ! h) | h. h < length m}"
    then obtain h where "x = (h, m ! h)" and "h < length m" by auto
    then have "x = ([0 ..< length m] ! h, m ! h) \<and> h < min (length [0 ..< length m]) (length m)"
      by simp
    then show "x \<in> set (zip [0 ..< length m] m)"
      unfolding set_zip by blast
  qed
  then show ?thesis
    by (auto simp: map_inv_def list_all_iff)
qed


lemma bind_result_Inr [simp]: "bind_result (Inr x) f = f x"
  by (simp add: bind_result_def)

lemma bind_result_Inl [simp]: "bind_result (Inl e) f = Inl e"
  by (simp add: bind_result_def)

lemma c_str_idem [simp]: "c_str (c_str s) = c_str s"
  by (simp add: c_str_def)

section \<open>Facts about the object map\<close>

lemma cjson_hash_cong: "strcmp_eq a b \<Longrightarrow> cjson_hash a = cjson_hash b"
  by (simp add: cjson_hash_def strcmp_eq_def)

lemma strcmp_eq_strdup [simp]: "strcmp_eq (strdup name) name"
  by (simp add: strcmp_eq_def strdup_def)

lemma strcmp_eq_sym: "strcmp_eq a b \<Longrightarrow> strcmp_eq b a"
  by (simp add: strcmp_eq_def)

lemma strcmp_eq_trans: "strcmp_eq a b \<Longrightarrow> strcmp_eq b c \<Longrightarrow> strcmp_eq a c"
  by (simp add: strcmp_eq_def)

lemma chain_split: "chain_skipped c name @ chain_scan c name = c"
  by (simp add: chain_skipped_def chain_scan_def)

lemma chain_scan_Nil_iff:
  "chain_scan c name = [] \<longleftrightarrow> (\<forall>item \<in> set c. \<not> strcmp_eq (fst item) name)"
  by (simp add: chain_scan_def dropWhile_eq_Nil_conv)

lemma chain_scan_Cons: "chain_scan c name = item # rest \<Longrightarrow> strcmp_eq (fst item) name"
  unfolding chain_scan_def using hd_dropWhile [of "\<lambda>item. \<not> strcmp_eq (fst item) name" c]
  by (metis list.sel(1) list.distinct(1))

lemma chain_skipped_no_match:
  "item \<in> set (chain_skipped c name) \<Longrightarrow> \<not> strcmp_eq (fst item) name"
  unfolding chain_skipped_def by (auto dest: set_takeWhileD)

text \<open>In a chain of distinct names the entry the scan stops at is the only one of its name.\<close>

lemma chain_scan_rest_no_match:
  assumes d: "distinct (map (\<lambda>item. c_str (fst item)) c)"
    and s: "chain_scan c name = item # rest"
    and r: "x \<in> set rest"
  shows "\<not> strcmp_eq (fst x) name"
proof
  assume m: "strcmp_eq (fst x) name"
  have c: "c = chain_skipped c name @ item # rest"
    using chain_split [of c name] s by simp
  have "strcmp_eq (fst item) name" using s by (rule chain_scan_Cons)
  with m have eq: "c_str (fst item) = c_str (fst x)" by (simp add: strcmp_eq_def)
  have "distinct (map (\<lambda>item. c_str (fst item)) (item # rest))"
    using d by (subst (asm) c) simp
  with r eq show False by (auto simp: image_iff)
qed

lemma chain_scan_unique:
  assumes d: "distinct (map (\<lambda>item. c_str (fst item)) c)"
    and s: "chain_scan c name = item # rest"
    and x: "x \<in> set c" and m: "strcmp_eq (fst x) name"
  shows "x = item"
proof -
  have c: "c = chain_skipped c name @ item # rest"
    using chain_split [of c name] s by simp
  have "x \<in> set (chain_skipped c name) \<or> x = item \<or> x \<in> set rest"
    using x by (subst (asm) c) auto
  then show ?thesis
    using chain_skipped_no_match [of x c name] chain_scan_rest_no_match [OF d s, of x] m by blast
qed

lemma entry_bucket:
  assumes "item \<in> set (map_entries m)"
  shows "\<exists>h < length m. item \<in> set (m ! h)"
proof -
  from assms obtain c where "c \<in> set m" and i: "item \<in> set c"
    by (auto simp: map_entries_def)
  then obtain h where "h < length m" and "m ! h = c"
    by (auto simp: in_set_conv_nth)
  with i show ?thesis by blast
qed

lemma bucket_entry: "h < length m \<Longrightarrow> item \<in> set (m ! h) \<Longrightarrow> item \<in> set (map_entries m)"
  by (auto simp: map_entries_def)

lemma inv_bucket_of_name:
  assumes inv: "map_inv m" and h: "h < length m" and i: "item \<in> set (m ! h)"
    and eq: "strcmp_eq (fst item) name"
  shows "unat (cjson_hash name) mod length m = h"
proof -
  have "unat (cjson_hash (fst item)) mod length m = h"
    using inv h i by (auto simp: map_inv_iff)
  then show ?thesis using cjson_hash_cong [OF eq] by simp
qed

lemma object_get_absent:
  assumes "0 < length m" and "\<forall>item \<in> set (map_entries m). \<not> strcmp_eq (fst item) name"
  shows "cjson_object_get m name = Inr None"
proof -
  let ?h = "unat (cjson_hash name) mod length m"
  have h: "?h < length m" using assms(1) by simp
  have "\<forall>item \<in> set (m ! ?h). \<not> strcmp_eq (fst item) name"
    using assms(2) bucket_entry [OF h] by blast
  then have "chain_scan (m ! ?h) name = []" by (simp add: chain_scan_Nil_iff)
  then show ?thesis using assms(1) by (simp add: cjson_object_get_def Let_def)
qed

lemma object_get_present:
  assumes inv: "map_inv m" and i: "(stored, e) \<in> set (map_entries m)"
    and eq: "strcmp_eq stored name"
  shows "cjson_object_get m name = Inr e"
proof -
  let ?h = "unat (cjson_hash name) mod length m"
  obtain h where h: "h < length m" and ih: "(stored, e) \<in> set (m ! h)"
    using entry_bucket [OF i] by blast
  have hh: "?h = h" using inv_bucket_of_name [OF inv h ih] eq by simp
  have d: "distinct (map (\<lambda>item. c_str (fst item)) (m ! h))"
    using inv h by (simp add: map_inv_iff)
  have "chain_scan (m ! h) name \<noteq> []"
    using ih eq by (force simp: chain_scan_Nil_iff)
  then obtain item rest where s: "chain_scan (m ! h) name = item # rest"
    by (cases "chain_scan (m ! h) name") auto
  have "(stored, e) = item"
    using chain_scan_unique [OF d s ih] eq by simp
  with s hh h show ?thesis
    by (auto simp: cjson_object_get_def Let_def)
qed


lemma map_inv_fresh:
  assumes inv: "map_inv m" and len: "0 < length m"
    and h: "h = unat (cjson_hash name) mod length m"
    and no: "chain_scan (m ! h) name = []"
  shows "map_inv (m[h := (strdup name, e) # m ! h])"
proof -
  have hl: "h < length m" using h len by simp
  have fresh: "c_str name \<notin> (\<lambda>item. c_str (fst item)) ` set (m ! h)"
    using no by (auto simp: chain_scan_Nil_iff strcmp_eq_def)
  have hash: "unat (cjson_hash (strdup name)) mod length m = h"
    using h cjson_hash_cong [of "strdup name" name] by simp
  show ?thesis
    unfolding map_inv_iff
  proof (intro allI impI)
    fix k assume k: "k < length (m[h := (strdup name, e) # m ! h])"
    show "distinct (map (\<lambda>item. c_str (fst item)) (m[h := (strdup name, e) # m ! h] ! k)) \<and>
          (\<forall>item \<in> set (m[h := (strdup name, e) # m ! h] ! k).
             unat (cjson_hash (fst item)) mod length (m[h := (strdup name, e) # m ! h]) = k)"
    proof (cases "k = h")
      case True
      then show ?thesis
        using inv hl fresh hash by (auto simp: map_inv_iff strdup_def)
    next
      case False
      then show ?thesis
        using inv k by (auto simp: map_inv_iff)
    qed
  qed
qed

lemma map_inv_same_names:
  assumes inv: "map_inv m" and h: "h < length m" and n: "map fst c = map fst (m ! h)"
  shows "map_inv (m[h := c])"
proof -
  have names: "map (\<lambda>item. c_str (fst item)) c = map (\<lambda>item. c_str (fst item)) (m ! h)"
    using arg_cong [OF n, of "map c_str"] by (simp add: comp_def)
  have sets: "fst ` set c = fst ` set (m ! h)"
    using arg_cong [OF n, of set] by simp
  show ?thesis
    unfolding map_inv_iff
  proof (intro allI impI)
    fix k assume k: "k < length (m[h := c])"
    show "distinct (map (\<lambda>item. c_str (fst item)) (m[h := c] ! k)) \<and>
          (\<forall>item \<in> set (m[h := c] ! k). unat (cjson_hash (fst item)) mod length (m[h := c]) = k)"
    proof (cases "k = h")
      case True
      have "\<forall>item \<in> set c. unat (cjson_hash (fst item)) mod length m = h"
      proof
        fix item assume "item \<in> set c"
        then have "fst item \<in> fst ` set (m ! h)" using sets by blast
        then obtain item' where i': "item' \<in> set (m ! h)" and f: "fst item' = fst item" by auto
        have "unat (cjson_hash (fst item')) mod length m = h"
          using inv h i' unfolding map_inv_iff by blast
        then show "unat (cjson_hash (fst item)) mod length m = h"
          using f by simp
      qed
      with True show ?thesis
        using inv h names by (simp add: map_inv_iff)
    next
      case False
      then show ?thesis
        using inv k by (auto simp: map_inv_iff)
    qed
  qed
qed

lemma entries_update:
  assumes h: "h < length m" and others: "\<forall>k < length m. k \<noteq> h \<longrightarrow> map f (m ! k) = m ! k"
  shows "map_entries (m[h := map f (m ! h)]) = map f (map_entries m)"
proof -
  have "m[h := map f (m ! h)] = map (map f) m"
    using h others by (intro nth_equalityI) (auto simp: nth_list_update)
  then show ?thesis by (simp add: map_entries_def map_concat)
qed

lemma map_insert_replace:
  assumes len: "0 < length m" and inv: "map_inv m"
    and i: "(stored, old) \<in> set (map_entries m)" and eq: "strcmp_eq stored name"
    and del: "cjson_delete old = Inr ()"
  shows "\<exists>m'. cjson_map_insert m name e = Inr m' \<and> length m' = length m \<and> map_inv m' \<and>
           map_entries m' =
             map (\<lambda>item. if strcmp_eq (fst item) name then (fst item, e) else item) (map_entries m) \<and>
           cjson_object_get m' name = Inr e"
proof -
  let ?h = "unat (cjson_hash name) mod length m"
  let ?f = "\<lambda>item. if strcmp_eq (fst item) name then (fst item, e) else item"
  obtain h where h: "h < length m" and ih: "(stored, old) \<in> set (m ! h)"
    using entry_bucket [OF i] by blast
  have hh: "?h = h" using inv_bucket_of_name [OF inv h ih] eq by simp
  have d: "distinct (map (\<lambda>item. c_str (fst item)) (m ! h))"
    using inv h by (simp add: map_inv_iff)
  have "chain_scan (m ! h) name \<noteq> []"
    using ih eq by (force simp: chain_scan_Nil_iff)
  then obtain item rest where s: "chain_scan (m ! h) name = item # rest"
    by (cases "chain_scan (m ! h) name") auto
  have item: "item = (stored, old)"
    using chain_scan_unique [OF d s ih] eq by simp
  let ?c = "chain_skipped (m ! h) name @ (stored, e) # rest"
  have ins: "cjson_map_insert m name e = Inr (m[h := ?c])"
    using len hh s item del by (simp add: cjson_map_insert_def Let_def)
  have c: "m ! h = chain_skipped (m ! h) name @ (stored, old) # rest"
    using chain_split [of "m ! h" name] s item by simp
  have skipped: "map ?f (chain_skipped (m ! h) name) = chain_skipped (m ! h) name"
    using chain_skipped_no_match [of _ "m ! h" name] by (intro map_idI) auto
  have rest: "map ?f rest = rest"
    using chain_scan_rest_no_match [OF d s] by (intro map_idI) auto
  have "map ?f (m ! h) = map ?f (chain_skipped (m ! h) name) @ ?f (stored, old) # map ?f rest"
    by (subst c) simp
  then have fc: "map ?f (m ! h) = ?c"
    using skipped rest eq by simp
  have others: "\<forall>k < length m. k \<noteq> h \<longrightarrow> map ?f (m ! k) = m ! k"
  proof (intro allI impI)
    fix k assume k: "k < length m" and kh: "k \<noteq> h"
    have "\<forall>x \<in> set (m ! k). \<not> strcmp_eq (fst x) name"
      using inv_bucket_of_name [OF inv k] hh kh by blast
    then show "map ?f (m ! k) = m ! k" by (intro map_idI) auto
  qed
  have entries: "map_entries (m[h := ?c]) = map ?f (map_entries m)"
    using entries_update [OF h others] fc by simp
  have "map fst ?c = map fst (m ! h)"
    by (subst (2) c) simp
  then have inv': "map_inv (m[h := ?c])"
    using map_inv_same_names [OF inv h] by blast
  have "(stored, e) \<in> set (map_entries (m[h := ?c]))"
    using h by (intro bucket_entry [of h]) auto
  then have "cjson_object_get (m[h := ?c]) name = Inr e"
    using object_get_present [OF inv' _ eq] by blast
  with ins inv' entries show ?thesis by simp
qed

lemma map_insert_fresh:
  assumes len: "0 < length m" and inv: "map_inv m"
    and no: "\<forall>item \<in> set (map_entries m). \<not> strcmp_eq (fst item) name"
    and h: "h = unat (cjson_hash name) mod length m"
  shows "cjson_map_insert m name e = Inr (m[h := (strdup name, e) # m ! h]) \<and>
         map_inv (m[h := (strdup name, e) # m ! h]) \<and>
         cjson_object_get (m[h := (strdup name, e) # m ! h]) name = Inr e"
proof -
  have hl: "h < length m" using h len by simp
  have "\<forall>item \<in> set (m ! h). \<not> strcmp_eq (fst item) name"
    using no bucket_entry [OF hl] by blast
  then have s: "chain_scan (m ! h) name = []" by (simp add: chain_scan_Nil_iff)
  have ins: "cjson_map_insert m name e = Inr (m[h := (strdup name, e) # m ! h])"
    using len h s by (simp add: cjson_map_insert_def Let_def)
  have inv': "map_inv (m[h := (strdup name, e) # m ! h])"
    using map_inv_fresh [OF inv len h s] .
  have "(strdup name, e) \<in> set (map_entries (m[h := (strdup name, e) # m ! h]))"
    using hl by (intro bucket_entry [of h]) auto
  then have "cjson_object_get (m[h := (strdup name, e) # m ! h]) name = Inr e"
    using object_get_present [OF inv'] by simp
  with ins inv' show ?thesis by simp
qed


section \<open>Facts about the iterator\<close>

lemma first_nonempty_past: "\<not> i < length m \<Longrightarrow> first_nonempty m i = i"
  by (subst first_nonempty.simps) simp

lemma first_nonempty_here: "i < length m \<Longrightarrow> m ! i \<noteq> [] \<Longrightarrow> first_nonempty m i = i"
  by (subst first_nonempty.simps) simp

lemma first_nonempty_skip:
  "i < length m \<Longrightarrow> m ! i = [] \<Longrightarrow> first_nonempty m i = first_nonempty m (i + 1)"
  by (subst first_nonempty.simps) simp

lemma first_nonempty_props:
  "i \<le> length m \<Longrightarrow>
     i \<le> first_nonempty m i \<and> first_nonempty m i \<le> length m \<and>
     concat (drop (first_nonempty m i) m) = concat (drop i m) \<and>
     (first_nonempty m i < length m \<longrightarrow> m ! first_nonempty m i \<noteq> [])"
proof (induction m i rule: first_nonempty.induct)
  case (1 m i)
  show ?case
  proof (cases "i < length m")
    case False
    with "1.prems" show ?thesis by (simp add: first_nonempty_past)
  next
    case True
    show ?thesis
    proof (cases "m ! i = []")
      case False
      with True show ?thesis by (simp add: first_nonempty_here)
    next
      case empty: True
      have step: "first_nonempty m i = first_nonempty m (i + 1)"
        using True empty by (rule first_nonempty_skip)
      have "concat (drop i m) = concat (drop (i + 1) m)"
        using True empty by (simp add: Cons_nth_drop_Suc [symmetric])
      moreover have "i + 1 \<le> first_nonempty m (i + 1) \<and>
          first_nonempty m (i + 1) \<le> length m \<and>
          concat (drop (first_nonempty m (i + 1)) m) = concat (drop (i + 1) m) \<and>
          (first_nonempty m (i + 1) < length m \<longrightarrow> m ! first_nonempty m (i + 1) \<noteq> [])"
        using "1.IH" True empty by simp
      ultimately show ?thesis using step by simp
    qed
  qed
qed

lemma it_at_entry:
  assumes "it_at m k it"
  shows "k < length (concat m) \<and> it_name it = Some (fst (concat m ! k)) \<and>
         it_element it = snd (concat m ! k)"
proof -
  from assms have d: "drop k (concat m) = it_item it @ concat (drop (it_i it + 1) m)"
    and ne: "it_item it \<noteq> []"
    by (simp_all add: it_at_def)
  from d ne have k: "k < length (concat m)"
    by (cases "k < length (concat m)") auto
  have "concat m ! k = hd (drop k (concat m))"
    using k by (simp add: hd_drop_conv_nth)
  also have "\<dots> = hd (it_item it)" using d ne by simp
  finally show ?thesis using assms k by (simp add: it_at_def)
qed

lemma iterate_object_start:
  "(concat m \<noteq> [] \<longrightarrow> it_at m 0 (cjson_iterate_object m)) \<and>
   (concat m = [] \<longrightarrow> it_end (cjson_iterate_object m))"
proof -
  let ?j = "first_nonempty m 0"
  have p: "?j \<le> length m" "concat (drop ?j m) = concat m"
    "?j < length m \<longrightarrow> m ! ?j \<noteq> []"
    using first_nonempty_props [of 0 m] by simp_all
  show ?thesis
  proof (cases "?j < length m")
    case True
    with p obtain n e rest where c: "m ! ?j = (n, e) # rest"
      by (cases "m ! ?j") auto
    have eq: "concat m = m ! ?j @ concat (drop (?j + 1) m)"
      using True p(2) by (simp add: Cons_nth_drop_Suc [symmetric])
    have "concat m \<noteq> []" by (subst eq) (simp add: c)
    moreover have "cjson_iterate_object m =
        \<lparr>it_name = Some n, it_element = e, it_end = False, it_map = m, it_i = ?j, it_item = m ! ?j\<rparr>"
      using True c by (simp add: cjson_iterate_object_def Let_def)
    moreover have "it_at m 0
        \<lparr>it_name = Some n, it_element = e, it_end = False, it_map = m, it_i = ?j, it_item = m ! ?j\<rparr>"
      using True c eq [symmetric] by (simp add: it_at_def)
    ultimately show ?thesis by simp
  next
    case False
    with p have "concat m = []" by simp
    moreover have "it_end (cjson_iterate_object m)"
      using False by (simp add: cjson_iterate_object_def Let_def)
    ultimately show ?thesis by blast
  qed
qed

lemma iterate_next_step:
  assumes a: "it_at m k it"
  shows "\<exists>it'. cjson_iterate_next it = Inr it' \<and>
           (if Suc k < length (concat m) then it_at m (Suc k) it' else it_end it')"
proof -
  from a obtain cur nxt where item: "it_item it = cur # nxt"
    by (cases "it_item it") (auto simp: it_at_def)
  from a have mp: "it_map it = m" and ne: "\<not> it_end it" and il: "it_i it < length m"
    and d: "cur # nxt @ concat (drop (it_i it + 1) m) = drop k (concat m)"
    using item by (simp_all add: it_at_def)
  have k: "k < length (concat m)" using it_at_entry [OF a] by simp
  have d': "nxt @ concat (drop (it_i it + 1) m) = drop (Suc k) (concat m)"
    using d k by (metis Cons_nth_drop_Suc list.inject)
  show ?thesis
  proof (cases nxt)
    case (Cons p rest)
    obtain n e where p: "p = (n, e)" by (cases p)
    have sk: "Suc k < length (concat m)"
      using d' Cons by (cases "Suc k < length (concat m)") auto
    have nx: "cjson_iterate_next it = Inr (it\<lparr>it_item := nxt, it_name := Some n, it_element := e\<rparr>)"
      using ne item Cons p il mp by (simp add: cjson_iterate_next_def Let_def)
    have "it_at m (Suc k) (it\<lparr>it_item := nxt, it_name := Some n, it_element := e\<rparr>)"
      using ne mp il d' Cons p by (simp add: it_at_def)
    with nx sk show ?thesis by simp
  next
    case Nil
    let ?j = "first_nonempty m (it_i it + 1)"
    have p: "?j \<le> length m" "concat (drop ?j m) = concat (drop (it_i it + 1) m)"
      "?j < length m \<longrightarrow> m ! ?j \<noteq> []"
      using first_nonempty_props [of "it_i it + 1" m] il by simp_all
    have rest: "concat (drop ?j m) = drop (Suc k) (concat m)"
      using d' Nil p(2) by simp
    show ?thesis
    proof (cases "?j < length m")
      case True
      with p obtain n e r where c: "m ! ?j = (n, e) # r"
        by (cases "m ! ?j") auto
      have cc: "m ! ?j @ concat (drop (?j + 1) m) = drop (Suc k) (concat m)"
        using True rest by (simp add: Cons_nth_drop_Suc [symmetric])
      then have sk: "Suc k < length (concat m)"
        using c by (cases "Suc k < length (concat m)") auto
      have nx: "cjson_iterate_next it =
          Inr (it\<lparr>it_i := ?j, it_item := m ! ?j, it_name := Some n, it_element := e\<rparr>)"
        using ne item Nil mp True c by (simp add: cjson_iterate_next_def Let_def)
      have "it_at m (Suc k) (it\<lparr>it_i := ?j, it_item := m ! ?j, it_name := Some n, it_element := e\<rparr>)"
        using ne mp True cc c by (simp add: it_at_def)
      with nx sk show ?thesis by simp
    next
      case False
      with p have j: "?j = length m" by simp
      then have "drop (Suc k) (concat m) = []" using rest by simp
      then have sk: "\<not> Suc k < length (concat m)" by simp
      have nx: "cjson_iterate_next it = Inr (it\<lparr>it_i := ?j, it_end := True\<rparr>)"
        using ne item Nil mp j by (simp add: cjson_iterate_next_def Let_def)
      with sk show ?thesis by simp
    qed
  qed
qed

lemma iterate_steps_snoc:
  "iterate_steps (Suc k) it = bind_result (iterate_steps k it) cjson_iterate_next"
proof (induction k arbitrary: it)
  case 0
  show ?case by (cases "cjson_iterate_next it") simp_all
next
  case (Suc k)
  show ?case
  proof (cases "cjson_iterate_next it")
    case (Inl f)
    then show ?thesis by simp
  next
    case (Inr it')
    then show ?thesis using Suc.IH [of it'] by simp
  qed
qed

lemma iterate_steps_reach:
  "k < length (concat m) \<Longrightarrow> \<exists>it. iterate_steps k (cjson_iterate_object m) = Inr it \<and> it_at m k it"
proof (induction k)
  case 0
  then have "concat m \<noteq> []" by auto
  then have "it_at m 0 (cjson_iterate_object m)" using iterate_object_start [of m] by blast
  then show ?case by simp
next
  case (Suc k)
  then obtain it where s: "iterate_steps k (cjson_iterate_object m) = Inr it" and a: "it_at m k it"
    by auto
  from iterate_next_step [OF a] Suc.prems
  obtain it' where "cjson_iterate_next it = Inr it'" and "it_at m (Suc k) it'"
    by auto
  with s show ?case by (simp only: iterate_steps_snoc) simp
qed

lemma iterate_steps_finish:
  "\<exists>it. iterate_steps (length (concat m)) (cjson_iterate_object m) = Inr it \<and> it_end it"
proof (cases "length (concat m)")
  case 0
  then have "concat m = []" by simp
  then have "it_end (cjson_iterate_object m)" using iterate_object_start [of m] by blast
  then show ?thesis unfolding 0 by simp
next
  case (Suc k)
  then have "k < length (concat m)" by simp
  from iterate_steps_reach [OF this]
  obtain it where s: "iterate_steps k (cjson_iterate_object m) = Inr it" and a: "it_at m k it"
    by auto
  from iterate_next_step [OF a] Suc
  obtain it' where "cjson_iterate_next it = Inr it'" and "it_end it'"
    by auto
  with s Suc show ?thesis by (simp only: iterate_steps_snoc) simp
qed


section \<open>Facts about the array container\<close>

lemma insert_loop_stop: "\<not> index < current \<Longrightarrow> insert_loop es current index = es"
  by (subst insert_loop.simps) simp

lemma insert_loop_shift:
  "insert_loop (xs @ ys @ e # zs) (length xs + length ys) (length xs) = xs @ e # ys @ zs"
proof (induction ys arbitrary: zs rule: rev_induct)
  case Nil
  show ?case by (simp add: insert_loop_stop)
next
  case (snoc y ys)
  have swap: "(xs @ (ys @ [y]) @ e # zs)
        [length xs + length (ys @ [y]) - 1 := (xs @ (ys @ [y]) @ e # zs) ! (length xs + length (ys @ [y])),
         length xs + length (ys @ [y]) := (xs @ (ys @ [y]) @ e # zs) ! (length xs + length (ys @ [y]) - 1)]
      = xs @ ys @ e # (y # zs)"
    by (simp add: nth_append list_update_append)
  show ?case
    apply (subst insert_loop.simps)
    apply (simp only: swap)
    using snoc.IH [of "y # zs"] by simp
qed

lemma elements_append: "elements (cjson_array_append a e) = elements a @ [e]"
  by (simp add: cjson_array_append_def Let_def)

lemma array_inv_append: "array_inv a \<Longrightarrow> array_inv (cjson_array_append a e)"
  by (auto simp: array_inv_def cjson_array_append_def Let_def)

lemma insert_loop_take_drop:
  assumes "index \<le> length es"
  shows "insert_loop (es @ [e]) (length es) index = take index es @ e # drop index es"
proof -
  let ?xs = "take index es" and ?ys = "drop index es"
  have "insert_loop (?xs @ ?ys @ e # []) (length ?xs + length ?ys) (length ?xs) = ?xs @ e # ?ys @ []"
    by (rule insert_loop_shift)
  moreover have "?xs @ ?ys @ e # [] = es @ [e]"
    by (metis append_assoc append_take_drop_id)
  moreover have "length ?xs + length ?ys = length es"
    by simp
  moreover have "length ?xs = index"
    using assms by simp
  ultimately show ?thesis
    by simp
qed

lemma array_insert_elements:
  "elements (cjson_array_insert a e index) = take index (elements a) @ e # drop index (elements a)"
proof (cases "index \<le> length (elements a)")
  case True
  then show ?thesis
    by (simp add: cjson_array_insert_def Let_def array_size_def elements_append insert_loop_take_drop)
next
  case False
  then show ?thesis
    by (simp add: cjson_array_insert_def Let_def array_size_def elements_append insert_loop_stop)
qed

lemma array_insert_capacity:
  "capacity (cjson_array_insert a e index) = capacity (cjson_array_append a e)"
  by (simp add: cjson_array_insert_def Let_def)

section \<open>The claims\<close>

subsection \<open>C5: insertion into an array\<close>

text \<open>
  Claim C5. \<open>array_insert(element, index)\<close> on an array of length \<open>n\<close> places the element
  at position \<open>index\<close>: the slots before \<open>index\<close> keep their elements, the elements from
  \<open>index\<close> to \<open>n - 1\<close> move one slot toward the end, and for \<open>index \<ge> n\<close> the element is
  appended and nothing moves. The invariant \<open>size \<le> capacity\<close> is kept. From the empty
  array, \<open>append(1)\<close>, \<open>append(2)\<close>, \<open>append(3)\<close>, \<open>insert(-1, 0)\<close>, \<open>insert(0, 1)\<close>,
  \<open>insert(5, 5)\<close>, \<open>insert(4, 5)\<close> give \<open>[-1, 0, 1, 2, 3, 4, 5]\<close>.
\<close>

theorem cjson_array_insert_places:
  assumes "array_inv a"
  shows "elements (cjson_array_insert a e index) =
           take index (elements a) @ e # drop index (elements a) \<and>
         (length (elements a) \<le> index \<longrightarrow>
            elements (cjson_array_insert a e index) = elements a @ [e]) \<and>
         array_inv (cjson_array_insert a e index) \<and>
         elements
           (cjson_array_insert (cjson_array_insert (cjson_array_insert (cjson_array_insert
              (cjson_array_append (cjson_array_append (cjson_array_append
                 \<lparr>elements = [], capacity = 0\<rparr>
                 (Some (cjson_create_integer 1))) (Some (cjson_create_integer 2)))
                 (Some (cjson_create_integer 3)))
              (Some (cjson_create_integer (- 1))) 0) (Some (cjson_create_integer 0)) 1)
              (Some (cjson_create_integer 5)) 5) (Some (cjson_create_integer 4)) 5)
         = map (\<lambda>v. Some (cjson_create_integer v)) [- 1, 0, 1, 2, 3, 4, 5]"
proof -
  have "array_inv (cjson_array_insert a e index)"
    using array_inv_append [OF assms, of e]
    by (simp add: array_inv_def array_insert_elements array_insert_capacity elements_append)
  then show ?thesis
    by (simp add: array_insert_elements elements_append)
qed

theorem cjson_array_insert_places_witness:
  "array_inv \<lparr>elements = [Some (cjson_create_integer 7), Some (cjson_create_integer 8)], capacity = 8\<rparr> \<and>
   elements (cjson_array_insert
      \<lparr>elements = [Some (cjson_create_integer 7), Some (cjson_create_integer 8)], capacity = 8\<rparr>
      (Some (cjson_create_integer 9)) 1)
   = [Some (cjson_create_integer 7), Some (cjson_create_integer 9), Some (cjson_create_integer 8)]"
proof -
  have inv: "array_inv \<lparr>elements = [Some (cjson_create_integer 7), Some (cjson_create_integer 8)], capacity = 8\<rparr>"
    by (simp add: array_inv_def)
  show ?thesis
    using inv cjson_array_insert_places [OF inv, of "Some (cjson_create_integer 9)" 1]
    by simp
qed

subsection \<open>C9: iteration over an object\<close>

text \<open>
  Claim C9. The iterator of \<open>cjson_iterate_object\<close>, advanced by \<open>cjson_iterate_next\<close>,
  visits every stored entry exactly once, through all buckets and chain positions, and
  then sets \<open>end\<close>: after \<open>k\<close> steps it stands on entry \<open>k\<close> of the map's entries in
  storage order, for every \<open>k\<close> below their number, and after as many steps as there
  are entries \<open>end\<close> is true. On an empty map the initial iterator has \<open>end\<close> true.
\<close>

theorem cjson_iterate_visits_all:
  "(\<forall>k < length (map_entries m).
      \<exists>it. iterate_steps k (cjson_iterate_object m) = Inr it \<and> \<not> it_end it \<and>
           it_name it = Some (fst (map_entries m ! k)) \<and>
           it_element it = snd (map_entries m ! k)) \<and>
   (\<exists>it. iterate_steps (length (map_entries m)) (cjson_iterate_object m) = Inr it \<and> it_end it) \<and>
   (map_entries m = [] \<longrightarrow> it_end (cjson_iterate_object m))"
proof (intro conjI allI impI)
  fix k assume "k < length (map_entries m)"
  then have "k < length (concat m)" by (simp add: map_entries_def)
  from iterate_steps_reach [OF this]
  obtain it where s: "iterate_steps k (cjson_iterate_object m) = Inr it" and a: "it_at m k it"
    by blast
  from it_at_entry [OF a] a s
  show "\<exists>it. iterate_steps k (cjson_iterate_object m) = Inr it \<and> \<not> it_end it \<and>
           it_name it = Some (fst (map_entries m ! k)) \<and>
           it_element it = snd (map_entries m ! k)"
    by (simp add: map_entries_def it_at_def)
next
  show "\<exists>it. iterate_steps (length (map_entries m)) (cjson_iterate_object m) = Inr it \<and> it_end it"
    using iterate_steps_finish [of m] by (simp add: map_entries_def)
next
  assume "map_entries m = []"
  then have "concat m = []" by (simp add: map_entries_def)
  then show "it_end (cjson_iterate_object m)"
    using iterate_object_start [of m] by blast
qed

theorem cjson_iterate_visits_all_witness:
  "(2 :: nat) < length (map_entries [[], [(''a'', None), (''b'', None)], [], [(''c'', None)]]) \<and>
   (\<exists>it. iterate_steps 2 (cjson_iterate_object [[], [(''a'', None), (''b'', None)], [], [(''c'', None)]])
            = Inr it \<and>
         \<not> it_end it \<and> it_name it = Some ''c'' \<and> it_element it = None)"
proof -
  let ?m = "[[], [(''a'', None), (''b'', None)], [], [(''c'', None)]] :: cjson_map"
  have len: "(2 :: nat) < length (map_entries ?m)"
    by (simp add: map_entries_def)
  have "\<forall>k < length (map_entries ?m).
      \<exists>it. iterate_steps k (cjson_iterate_object ?m) = Inr it \<and> \<not> it_end it \<and>
           it_name it = Some (fst (map_entries ?m ! k)) \<and>
           it_element it = snd (map_entries ?m ! k)"
    using cjson_iterate_visits_all [of ?m] by blast
  then have "\<exists>it. iterate_steps 2 (cjson_iterate_object ?m) = Inr it \<and> \<not> it_end it \<and>
           it_name it = Some (fst (map_entries ?m ! 2)) \<and>
           it_element it = snd (map_entries ?m ! 2)"
    using len by blast
  moreover have "map_entries ?m ! 2 = (''c'', None)"
    by (simp add: map_entries_def)
  ultimately show ?thesis
    using len by simp
qed

subsection \<open>C10: looking a member up\<close>

text \<open>
  Claim C10 says that for every object and every name that is not a member of it
  \<open>cjson_object_get\<close> returns null rather than aborting, and that for a present name it
  returns the stored element. \<open>cjson_create_object(0)\<close> builds an object of capacity 0,
  and on it the lookup of any name divides by zero.
\<close>

theorem cjson_object_get_zero_capacity:
  "cjson_as_object (cjson_create_object 0) = Inr [] \<and>
   map_entries [] = [] \<and>
   cjson_object_get [] ''a'' = Inl Division_by_zero"
  by (simp add: cjson_as_object_def cjson_create_object_def map_entries_def cjson_object_get_def)

text \<open>
  Claim C10, amended. For every object of capacity other than 0: the lookup of a name
  that no entry carries returns null; and when the map has the layout insertions
  leave (\<open>map_inv\<close>), the lookup of a name that an entry carries returns the element
  stored in that entry.
\<close>

theorem cjson_object_get_returns:
  assumes "0 < length m"
  shows "((\<forall>item \<in> set (map_entries m). \<not> strcmp_eq (fst item) name) \<longrightarrow>
            cjson_object_get m name = Inr None) \<and>
         (map_inv m \<and> (stored, e) \<in> set (map_entries m) \<and> strcmp_eq stored name \<longrightarrow>
            cjson_object_get m name = Inr e)"
  using object_get_absent [OF assms, of name] object_get_present [of m stored e name]
  by blast

theorem cjson_object_get_returns_witness:
  "0 < length [[], [(''a'', Some (cjson_create_integer 1))]] \<and>
   map_inv [[], [(''a'', Some (cjson_create_integer 1))]] \<and>
   cjson_object_get [[], [(''a'', Some (cjson_create_integer 1))]] ''a''
     = Inr (Some (cjson_create_integer 1)) \<and>
   cjson_object_get [[], [(''a'', Some (cjson_create_integer 1))]] ''b'' = Inr None"
proof -
  let ?m = "[[], [(''a'', Some (cjson_create_integer 1))]] :: cjson_map"
  have len: "0 < length ?m" by simp
  have inv: "map_inv ?m" by code_simp
  have absent: "\<forall>item \<in> set (map_entries ?m). \<not> strcmp_eq (fst item) ''b''"
    by (simp add: map_entries_def strcmp_eq_def c_str_def NUL_def)
  have present: "(''a'', Some (cjson_create_integer 1)) \<in> set (map_entries ?m) \<and> strcmp_eq ''a'' ''a''"
    by (simp add: map_entries_def strcmp_eq_def)
  show ?thesis
    using len inv absent present
      cjson_object_get_returns [OF len, of "''b''" "''a''" "Some (cjson_create_integer 1)"]
      cjson_object_get_returns [OF len, of "''a''" "''a''" "Some (cjson_create_integer 1)"]
    by blast
qed

subsection \<open>C6: inserting into an object map\<close>

text \<open>
  Claim C6 says that for every object map an insertion under a name that has an entry
  replaces that entry's element and keeps the stored name, so that names stay unique
  and a lookup returns the second value, and that an insertion under a fresh name
  pushes an entry at the head of its bucket's chain. On a map of capacity 0 the
  insertion divides by zero; and the entry's old element is handed to
  \<open>cjson_delete\<close>, which dereferences it, so that replacing a null element (the parser
  stores one for \<open>{"a":}\<close>) is a null dereference.
\<close>

theorem cjson_map_insert_faults:
  "cjson_map_insert [] ''a'' (Some (cjson_create_integer 1)) = Inl Division_by_zero \<and>
   cjson_map_insert [[(''a'', None)]] ''a'' (Some (cjson_create_integer 1)) = Inl Null_dereference"
  by code_simp

text \<open>
  Claim C6, amended. For every object map of capacity other than 0 that has the layout
  insertions leave (\<open>map_inv\<close>: names unique, each entry in the bucket of its hash):
  inserting under a name that has an entry whose element \<open>cjson_delete\<close> releases
  without fault keeps every entry and every stored name and replaces the element of
  that one entry, the names stay unique and a lookup of the name returns the new
  element; inserting under a fresh name pushes the entry, under a copy of the name, at
  the head of the chain of the name's bucket, with the same two consequences.
\<close>

theorem cjson_map_insert_replaces_or_pushes:
  assumes "0 < length m" and "map_inv m"
  shows "((stored, old) \<in> set (map_entries m) \<and> strcmp_eq stored name \<and> cjson_delete old = Inr () \<longrightarrow>
            (\<exists>m'. cjson_map_insert m name e = Inr m' \<and> length m' = length m \<and> map_inv m' \<and>
                  map_entries m' =
                    map (\<lambda>item. if strcmp_eq (fst item) name then (fst item, e) else item)
                      (map_entries m) \<and>
                  cjson_object_get m' name = Inr e)) \<and>
         ((\<forall>item \<in> set (map_entries m). \<not> strcmp_eq (fst item) name) \<longrightarrow>
            cjson_map_insert m name e =
              Inr (m[unat (cjson_hash name) mod length m :=
                       (strdup name, e) # m ! (unat (cjson_hash name) mod length m)]) \<and>
            map_inv (m[unat (cjson_hash name) mod length m :=
                       (strdup name, e) # m ! (unat (cjson_hash name) mod length m)]) \<and>
            cjson_object_get
              (m[unat (cjson_hash name) mod length m :=
                   (strdup name, e) # m ! (unat (cjson_hash name) mod length m)]) name = Inr e)"
  using map_insert_replace [OF assms, of stored old name e]
    map_insert_fresh [OF assms, of name "unat (cjson_hash name) mod length m" e]
  by blast

theorem cjson_map_insert_replaces_or_pushes_witness:
  "0 < length [[], [(''a'', Some (cjson_create_integer 1))]] \<and>
   map_inv [[], [(''a'', Some (cjson_create_integer 1))]] \<and>
   (''a'', Some (cjson_create_integer 1)) \<in> set (map_entries [[], [(''a'', Some (cjson_create_integer 1))]]) \<and>
   strcmp_eq ''a'' ''a'' \<and>
   cjson_delete (Some (cjson_create_integer 1)) = Inr () \<and>
   (\<exists>m'. cjson_map_insert [[], [(''a'', Some (cjson_create_integer 1))]] ''a''
            (Some (cjson_create_integer 2)) = Inr m' \<and>
         map_entries m' = [(''a'', Some (cjson_create_integer 2))] \<and>
         cjson_object_get m' ''a'' = Inr (Some (cjson_create_integer 2))) \<and>
   cjson_map_insert [[], [(''a'', Some (cjson_create_integer 1))]] ''b''
     (Some (cjson_create_integer 2))
     = Inr [[(''b'', Some (cjson_create_integer 2))], [(''a'', Some (cjson_create_integer 1))]]"
proof -
  let ?m = "[[], [(''a'', Some (cjson_create_integer 1))]] :: cjson_map"
  have len: "0 < length ?m" by simp
  have inv: "map_inv ?m" by code_simp
  have present: "(''a'', Some (cjson_create_integer 1)) \<in> set (map_entries ?m)"
    by (simp add: map_entries_def)
  have eq: "strcmp_eq ''a'' ''a''" by (simp add: strcmp_eq_def)
  have del: "cjson_delete (Some (cjson_create_integer 1)) = Inr ()"
    by (simp add: cjson_create_integer_def)
  have absent: "\<forall>item \<in> set (map_entries ?m). \<not> strcmp_eq (fst item) ''b''"
    by (simp add: map_entries_def strcmp_eq_def c_str_def NUL_def)
  have entries: "map (\<lambda>item. if strcmp_eq (fst item) ''a'' then (fst item, Some (cjson_create_integer 2)) else item)
          (map_entries ?m) = [(''a'', Some (cjson_create_integer 2))]"
    by (simp add: map_entries_def strcmp_eq_def)
  have bucket: "unat (cjson_hash ''b'') mod length ?m = 0" by code_simp
  have copy: "strdup ''b'' = ''b''" by code_simp
  from cjson_map_insert_replaces_or_pushes [OF len inv, of "''a''" "Some (cjson_create_integer 1)" "''a''"
      "Some (cjson_create_integer 2)"] present eq del entries
  have replaced: "\<exists>m'. cjson_map_insert ?m ''a'' (Some (cjson_create_integer 2)) = Inr m' \<and>
         map_entries m' = [(''a'', Some (cjson_create_integer 2))] \<and>
         cjson_object_get m' ''a'' = Inr (Some (cjson_create_integer 2))"
    by auto
  from cjson_map_insert_replaces_or_pushes [OF len inv, of "''a''" "Some (cjson_create_integer 1)" "''b''"
      "Some (cjson_create_integer 2)"] absent bucket copy
  have pushed: "cjson_map_insert ?m ''b'' (Some (cjson_create_integer 2))
     = Inr [[(''b'', Some (cjson_create_integer 2))], [(''a'', Some (cjson_create_integer 1))]]"
    by simp
  show ?thesis
    using len inv present eq del replaced pushed by blast
qed

subsection \<open>C1: the tag of a float literal\<close>

text \<open>
  Claim C1 says that a float literal yields an element of tag \<open>CJSON_FLOAT\<close>, on which
  \<open>cjson_is_float\<close> is true and \<open>cjson_is_integer\<close> false. \<open>cjson_parse_value\<close> stores
  the value in the \<open>fraction\<close> member and sets the tag \<open>CJSON_INTEGER\<close>: on \<open>1.5\<close> the
  predicates answer the other way round. (\<open>cjson_create_float\<close> sets \<open>CJSON_FLOAT\<close>.)
\<close>

theorem cjson_parse_float_is_tagged_integer:
  "cjson_parse_str strtod ''1.5''
     = Inr (Some (Element CJSON_INTEGER (VFraction (times_sign (strtod ''1.5'') 1)))) \<and>
   \<not> cjson_is_float (Element CJSON_INTEGER (VFraction (times_sign (strtod ''1.5'') 1))) \<and>
   cjson_is_integer (Element CJSON_INTEGER (VFraction (times_sign (strtod ''1.5'') 1))) \<and>
   cjson_is_float (cjson_create_float d)"
  by code_simp

subsection \<open>C2: malformed input\<close>

text \<open>
  Claim C2 says that a text with an unterminated string, a trailing comma before \<open>}\<close>
  or \<open>]\<close>, or a missing \<open>:\<close> makes \<open>parse\<close> return null and never a partial tree. On
  \<open>[1,]\<close> the parser returns an array of two slots, the second a null pointer; on the
  unterminated string \<open>"abc\<close> the lexer reads past the end of the text; on \<open>[{"a":1,}]\<close>
  the outer array is deleted with a null slot in it. On \<open>{"a":1,}\<close> and \<open>{"a" 1}\<close> it
  returns null.
\<close>

theorem cjson_parse_malformed:
  "cjson_parse_str strtod ''[1,]''
     = Inr (Some (Element CJSON_ARRAY (VArray [Some (Element CJSON_INTEGER (VInteger 1)), None] 8))) \<and>
   cjson_parse_str strtod (CHR 0x22 # ''abc'') = Inl Out_of_bounds_read \<and>
   cjson_parse_str strtod (''[{'' @ CHR 0x22 # ''a'' @ CHR 0x22 # '':1,}]'') = Inl Null_dereference \<and>
   cjson_parse_str strtod (''{'' @ CHR 0x22 # ''a'' @ CHR 0x22 # '':1,}'') = Inr None \<and>
   cjson_parse_str strtod (''{'' @ CHR 0x22 # ''a'' @ CHR 0x22 # '' 1}'') = Inr None"
  by code_simp

subsection \<open>C7: integer literals\<close>

text \<open>
  Claim C7 says that a numeric token of an optional \<open>-\<close> and digits yields the integer
  it denotes, sign applied, so that \<open>-5\<close> yields -5. The lexer multiplies by \<open>sign\<close>
  what \<open>strtol\<close> has already negated: \<open>-5\<close> yields 5. A token without a sign yields
  its value.
\<close>

theorem cjson_parse_negative_integer:
  "cjson_parse_str strtod ''-5'' = Inr (Some (Element CJSON_INTEGER (VInteger 5))) \<and>
   sint (5 :: 32 word) = 5 \<and>
   cjson_parse_str strtod ''5'' = Inr (Some (Element CJSON_INTEGER (VInteger 5)))"
  by code_simp

subsection \<open>C4: the path accessor\<close>

text \<open>
  Claim C4 says that \<open>get_path\<close> fails fast when the current element is not the
  container the step needs, when a member is missing, when an index is at or beyond
  the array's length, and when the first path character is neither \<open>.\<close> nor \<open>[\<close>. The
  first, second and fourth are assertions of the code. The index is not compared with
  the length: on a one-element array, \<open>[1]\<close> reads slot 1.
\<close>

theorem cjson_get_element_from_index_unchecked:
  "cjson_get_element_from
     (Some (Element CJSON_ARRAY (VArray [Some (cjson_create_integer 1)] 8))) ''[1]''
     = Inl Out_of_bounds_read \<and>
   cjson_get_element_from (Some (cjson_create_integer 1)) ''[0]'' = Inl Assertion_failed \<and>
   cjson_get_element_from (Some (cjson_create_integer 1)) ''.a'' = Inl Assertion_failed \<and>
   cjson_get_element_from (Some (cjson_create_object 4)) ''.a'' = Inl Assertion_failed \<and>
   cjson_get_element_from (Some (cjson_create_integer 1)) ''a'' = Inl Assertion_failed"
  by code_simp



section \<open>The serializer on plain trees\<close>

lemma sb_str_append_char [simp]: "sb_str (cjson_str_builder_append_char sb c) = sb_str sb @ [c]"
  by (simp add: cjson_str_builder_append_char_def Let_def)

lemma sb_str_foldl [simp]: "sb_str (foldl cjson_str_builder_append_char sb cs) = sb_str sb @ cs"
  by (induction cs arbitrary: sb) simp_all

lemma emits_put_char: "emits (put_char c) [c]"
  by (simp add: emits_def put_char_def)

lemma emits_put_cstr: "emits (put_cstr (Some s)) (c_str s)"
  by (simp add: emits_def put_cstr_def cjson_str_builder_append_cstr_def)

lemma emits_newline: "emits (pretty_newline False) []"
  by (simp add: emits_def pretty_newline_def)

lemma emits_Inr: "emits Inr []"
  by (simp add: emits_def)

lemma emits_then:
  assumes "emits p t1" and "emits q t2"
  shows "emits (then_do p q) (t1 @ t2)"
  unfolding emits_def then_do_def
proof (intro allI)
  fix sb i
  from assms(1) obtain sb1 where p: "p (sb, i) = Inr (sb1, i)" and s1: "sb_str sb1 = sb_str sb @ t1"
    unfolding emits_def by blast
  from assms(2) obtain sb2 where q: "q (sb1, i) = Inr (sb2, i)" and s2: "sb_str sb2 = sb_str sb1 @ t2"
    unfolding emits_def by blast
  show "\<exists>sb'. bind_result (p (sb, i)) q = Inr (sb', i) \<and> sb_str sb' = sb_str sb @ t1 @ t2"
    using p q s1 s2 by simp
qed

lemma emits_indented:
  assumes "emits p txt"
  shows "emits (then_do (indent_by 2) (then_do p (indent_by (- 2)))) txt"
  unfolding emits_def then_do_def
proof (intro allI)
  fix sb i
  from assms obtain sb1 where p: "p (sb, i + 2) = Inr (sb1, i + 2)" and s1: "sb_str sb1 = sb_str sb @ txt"
    unfolding emits_def by blast
  show "\<exists>sb'. bind_result (indent_by 2 (sb, i)) (\<lambda>st. bind_result (p st) (indent_by (- 2))) = Inr (sb', i) \<and>
          sb_str sb' = sb_str sb @ txt"
    using p s1 by (simp add: indent_by_def nat_add_distrib)
qed

lemma then_do_assoc: "then_do (then_do p q) r = then_do p (then_do q r)"
  by (auto simp: then_do_def bind_result_def fun_eq_iff split: sum.splits)

lemma emits_slots:
  "list_all2 emits ps ts \<Longrightarrow>
   emits (print_slots False ps) (concat (map (\<lambda>y. CHR '','' # y) ts))"
proof (induction ps ts rule: list_all2_induct)
  case Nil
  show ?case using emits_Inr by simp
next
  case (Cons p ps t ts)
  have "emits (then_do (put_char (CHR '','')) (then_do (pretty_newline False) (then_do p (print_slots False ps))))
          ([CHR '',''] @ [] @ t @ concat (map (\<lambda>y. CHR '','' # y) ts))"
    by (intro emits_then emits_put_char emits_newline Cons)
  then show ?case by simp
qed

lemma emits_first_slots:
  assumes "list_all2 emits ps ts"
  shows "emits (case ps of [] \<Rightarrow> Inr | p # rest \<Rightarrow> then_do p (print_slots False rest)) (separated ts)"
proof (cases ps)
  case Nil
  then have "ts = []" using assms by simp
  with Nil show ?thesis using emits_Inr by (simp add: separated_def)
next
  case (Cons p ps')
  then obtain t ts' where ts: "ts = t # ts'" and p: "emits p t"
    and rest: "list_all2 emits ps' ts'"
    using assms by (auto simp: list_all2_Cons1)
  show ?thesis
    using emits_then [OF p emits_slots [OF rest]] Cons ts by (simp add: separated_def)
qed

lemma emits_bracketed:
  assumes "emits body txt"
  shows "emits (then_do (put_char a) (then_do (indent_by 2) (then_do (pretty_newline False)
           (then_do body (then_do (indent_by (- 2)) (then_do (pretty_newline False) (put_char b)))))))
           (a # txt @ [b])"
proof -
  have inner: "emits (then_do (pretty_newline False) body) txt"
    using emits_then [OF emits_newline assms] by simp
  have "emits (then_do (put_char a) (then_do (then_do (indent_by 2)
           (then_do (then_do (pretty_newline False) body) (indent_by (- 2))))
           (then_do (pretty_newline False) (put_char b))))
         ([a] @ txt @ [] @ [b])"
    by (intro emits_then emits_put_char emits_newline emits_indented inner)
  then show ?thesis by (simp add: then_do_assoc)
qed

lemma emits_array:
  assumes "list_all2 emits ps ts"
  shows "emits (print_array False ps) (CHR ''['' # separated ts @ '']'')"
  unfolding print_array_def
  by (rule emits_bracketed [OF emits_first_slots [OF assms]])

lemma c_str_clean: "clean s \<Longrightarrow> c_str s = s"
  by (auto simp: clean_def c_str_def intro: takeWhile_eq_all_conv [THEN iffD2])

lemma emits_member:
  assumes "emits p t" and "clean n"
  shows "emits (print_member (n, p)) (member_text (n, Some t))"
proof -
  have "emits (then_do (put_char (CHR ''\"'')) (then_do (put_cstr (Some n))
     (then_do (put_cstr (Some ''\":'')) p))) ([CHR ''\"''] @ c_str n @ c_str ''\":'' @ t)"
    by (intro emits_then emits_put_char emits_put_cstr assms)
  moreover have "c_str ''\":'' = ''\":''"
    by (simp add: c_str_def NUL_def)
  ultimately show ?thesis
    using assms(2) by (simp add: print_member_def member_text_def c_str_clean)
qed

lemma emits_object:
  assumes "list_all2 (\<lambda>m t. emits (print_member m) t) ms ts"
  shows "emits (print_object False ms) (CHR ''{'' # separated ts @ ''}'')"
proof -
  have all: "list_all2 emits (map print_member ms) ts"
    using assms by (simp add: list_all2_map1)
  have "emits (case ms of [] \<Rightarrow> Inr
               | m # rest \<Rightarrow> then_do (print_member m) (print_slots False (map print_member rest)))
          (separated ts)"
    using emits_first_slots [OF all] by (cases ms) simp_all
  then show ?thesis
    unfolding print_object_def by (rule emits_bracketed)
qed

section \<open>Decimal digits\<close>

lemma digit_cases: "d < 10 \<Longrightarrow> d \<in> {0, 1, 2, 3, 4, 5, 6, 7, 8, 9 :: nat}"
  by auto

lemma digit_char:
  "d < 10 \<Longrightarrow> isdigit (''0123456789'' ! d) \<and> digit_val (''0123456789'' ! d) = d \<and>
     (''0123456789'' ! d = CHR ''0'' \<longleftrightarrow> d = 0)"
  using digit_cases [of d] by (auto simp: isdigit_def digit_val_def)

lemma isdigit_not: "isdigit c \<Longrightarrow> c \<noteq> NUL \<and> c \<noteq> CHR ''.'' \<and> \<not> isspace c \<and> c \<noteq> CHR ''-'' \<and> c \<noteq> CHR ''+''"
  by (auto simp: isdigit_def NUL_def isspace_def)

lemma decimal_digits_small: "n < 10 \<Longrightarrow> decimal_digits n = [''0123456789'' ! n]"
  by (subst decimal_digits.simps) simp

lemma decimal_digits_large:
  "\<not> n < 10 \<Longrightarrow> decimal_digits n = decimal_digits (n div 10) @ [''0123456789'' ! (n mod 10)]"
  by (subst decimal_digits.simps) simp

lemma decimal_snoc: "decimal (ds @ [c]) = 10 * decimal ds + digit_val c"
  by (simp add: decimal_def)

lemma decimal_digits_props:
  "list_all isdigit (decimal_digits n) \<and> decimal (decimal_digits n) = n \<and>
   decimal_digits n \<noteq> [] \<and> (hd (decimal_digits n) = CHR ''0'' \<longrightarrow> n = 0)"
proof (induction n rule: decimal_digits.induct)
  case (1 n)
  show ?case
  proof (cases "n < 10")
    case True
    then show ?thesis
      using digit_char [of n]
      by (simp add: decimal_digits_small decimal_def)
  next
    case False
    then have pos: "n div 10 \<noteq> 0" by simp
    have d: "n mod 10 < 10" by simp
    show ?thesis
      using 1 [OF False] False pos digit_char [OF d]
      by (auto simp: decimal_digits_large decimal_snoc)
  qed
qed

lemma decimal_digits_length: "n < 10 ^ k \<Longrightarrow> 0 < k \<Longrightarrow> length (decimal_digits n) \<le> k"
proof (induction n arbitrary: k rule: decimal_digits.induct)
  case (1 n)
  show ?case
  proof (cases "n < 10")
    case True
    then show ?thesis using "1.prems" by (simp add: decimal_digits_small)
  next
    case False
    with "1.prems" have k: "1 < k"
      by (cases "k = 1") auto
    then obtain j where j: "k = Suc j" and j0: "0 < j" by (cases k) auto
    have "n div 10 < 10 ^ j"
      using "1.prems"(1) j by (simp add: less_mult_imp_div_less mult.commute)
    from "1.IH" [OF False this j0] show ?thesis
      using False j by (simp add: decimal_digits_large)
  qed
qed

lemma sprintf_d_nonneg:
  assumes "0 \<le> sint (i :: 32 word)"
  shows "sprintf_d i = decimal_digits (nat (sint i))" and "length (sprintf_d i) \<le> 10"
    and "nat (sint i) < 2 ^ 31"
proof -
  show s: "sprintf_d i = decimal_digits (nat (sint i))"
    using assms by (simp add: sprintf_d_def)
  have "sint i < 2 ^ 31" using sint_lt [of i] by simp
  then show b: "nat (sint i) < 2 ^ 31" using assms by simp
  then have "nat (sint i) < 10 ^ 10" by simp
  from decimal_digits_length [OF this] show "length (sprintf_d i) \<le> 10"
    using s by simp
qed

section \<open>The compact text of a plain tree\<close>

lemma set_separated: "set (separated ts) \<subseteq> insert (CHR '','') (\<Union> (set ` set ts))"
  by (cases ts) (auto simp: separated_def)

lemma nul_free_separated:
  assumes "\<forall>t \<in> set ts. NUL \<notin> set t"
  shows "NUL \<notin> set (separated ts)"
proof
  assume "NUL \<in> set (separated ts)"
  with set_separated [of ts] have "NUL = CHR '','' \<or> (\<exists>t \<in> set ts. NUL \<in> set t)" by auto
  with assms show False by (auto simp: NUL_def)
qed

lemma nul_free_clean: "clean s \<Longrightarrow> NUL \<notin> set s"
  by (auto simp: clean_def)

lemma nul_free_digits: "NUL \<notin> set (decimal_digits n)"
  using decimal_digits_props [of n] isdigit_not by (auto simp: list_all_iff)

lemma c_str_terminated: "NUL \<notin> set s \<Longrightarrow> c_str (s @ NUL # r) = s"
  by (induction s) (auto simp: c_str_def)

lemma c_str_nul_free: "NUL \<notin> set s \<Longrightarrow> c_str s = s"
  by (induction s) (auto simp: c_str_def)

lemma to_str_render_both:
  shows "plain e \<longrightarrow> emits (cjson_to_str_rec e lf False) (render e) \<and> NUL \<notin> set (render e)"
    and "\<forall>t. plain_value v t \<longrightarrow>
        emits (to_str_value v t lf False) (render_value v) \<and> NUL \<notin> set (render_value v)"
proof (induction e and v)
  case (Element t v)
  then show ?case by simp
next
  case Zeroed
  have "emits (put_cstr (Some ''null'')) (c_str ''null'')" by (rule emits_put_cstr)
  then show ?case by (simp add: c_str_def NUL_def)
next
  case (VBoolean b)
  have "emits (put_cstr (Some ''true'')) (c_str ''true'')"
    and "emits (put_cstr (Some ''false'')) (c_str ''false'')"
    by (rule emits_put_cstr)+
  then show ?case by (simp add: c_str_def NUL_def)
next
  case (VInteger i)
  show ?case
  proof (intro allI impI)
    fix t assume "plain_value (VInteger i) t"
    then have t: "t = CJSON_INTEGER" and nn: "0 \<le> sint i" by simp_all
    have nul: "NUL \<notin> set (sprintf_d i)"
      using sprintf_d_nonneg(1) [OF nn] nul_free_digits by simp
    then have c: "c_str (sprintf_d i) = sprintf_d i"
      by (rule c_str_nul_free)
    have "emits (put_cstr (Some (sprintf_d i))) (sprintf_d i)"
      using emits_put_cstr [of "sprintf_d i"] c by simp
    then have "emits (\<lambda>st. bind_result (into_buffer (sprintf_d i)) (\<lambda>b. put_cstr (Some b) st)) (sprintf_d i)"
      using sprintf_d_nonneg(2) [OF nn] by (simp add: into_buffer_def)
    with t nul show "emits (to_str_value (VInteger i) t lf False) (render_value (VInteger i)) \<and>
        NUL \<notin> set (render_value (VInteger i))"
      by simp
  qed
next
  case (VFraction d)
  show ?case by simp
next
  case (VString x)
  show ?case
  proof (intro allI impI)
    fix t assume "plain_value (VString x) t"
    then obtain s where t: "t = CJSON_STRING" and x: "x = Some s" and cl: "clean s"
      by (cases x) auto
    have "emits (then_do (put_char (CHR ''\"'')) (then_do (put_cstr (Some s)) (put_char (CHR ''\"''))))
            ([CHR ''\"''] @ c_str s @ [CHR ''\"''])"
      by (intro emits_then emits_put_char emits_put_cstr)
    then show "emits (to_str_value (VString x) t lf False) (render_value (VString x)) \<and>
        NUL \<notin> set (render_value (VString x))"
      using t x cl nul_free_clean [OF cl] by (simp add: c_str_clean NUL_def)
  qed
next
  case (VArray es cap)
  show ?case
  proof (intro allI impI)
    fix t assume p: "plain_value (VArray es cap) t"
    then have t: "t = CJSON_ARRAY" and nn: "None \<notin> set es"
      and pl: "list_all (pred_option plain) es" by simp_all
    have each: "emits (dereferenced (map_option (\<lambda>e. cjson_to_str_rec e lf False) x))
                  (case_option [] id (map_option render x)) \<and>
                NUL \<notin> set (case_option [] id (map_option render x))"
      if xin: "x \<in> set es" for x
    proof -
      from xin nn have "x \<noteq> None" by metis
      then obtain e where x: "x = Some e" by (cases x) auto
      with xin pl have "plain e" by (auto simp: list_all_iff)
      with VArray [OF xin, of e] x show ?thesis by (simp add: dereferenced_def)
    qed
    have "list_all2 emits (map dereferenced (map (map_option (\<lambda>e. cjson_to_str_rec e lf False)) es))
            (map (case_option [] id) (map (map_option render) es))"
      using each by (simp add: list_all2_map1 list_all2_map2 list_all2_same)
    from emits_array [OF this]
    have "emits (to_str_value (VArray es cap) t lf False) (render_value (VArray es cap))"
      using t by simp
    moreover have "NUL \<notin> set (separated (map (case_option [] id) (map (map_option render) es)))"
      using each by (intro nul_free_separated) auto
    then have "NUL \<notin> set (render_value (VArray es cap))"
      by (simp add: NUL_def)
    ultimately show "emits (to_str_value (VArray es cap) t lf False) (render_value (VArray es cap)) \<and>
        NUL \<notin> set (render_value (VArray es cap))"
      by simp
  qed
next
  case (VObject m)
  show ?case
  proof (intro allI impI)
    fix t assume p: "plain_value (VObject m) t"
    then have t: "t = CJSON_OBJECT"
      and cl: "list_all (list_all (\<lambda>item. clean (fst item) \<and> snd item \<noteq> None)) m"
      and pl: "list_all (list_all (pred_prod (\<lambda>n. True) (pred_option plain))) m" by simp_all
    have each: "emits (print_member (map_prod id dereferenced
                    (map_prod id (map_option (\<lambda>e. cjson_to_str_rec e lf False)) item)))
                  (member_text (map_prod id (map_option render) item)) \<and>
                NUL \<notin> set (member_text (map_prod id (map_option render) item))"
      if iin: "item \<in> set (concat m)" for item
    proof -
      from iin obtain c where c: "c \<in> set m" and i: "item \<in> set c" by auto
      obtain n x where item: "item = (n, x)" by (cases item)
      from c i cl have "clean (fst item) \<and> snd item \<noteq> None"
        unfolding list_all_iff by blast
      with item have n: "clean n" and "x \<noteq> None" by simp_all
      then obtain e where x: "x = Some e" by (cases x) auto
      from c i pl have "pred_prod (\<lambda>n. True) (pred_option plain) item"
        unfolding list_all_iff by blast
      with item x have "plain e" by simp
      with VObject [OF c i, of x e] item x
      have e: "emits (cjson_to_str_rec e lf False) (render e)" and nul: "NUL \<notin> set (render e)"
        by simp_all
      show ?thesis
        using emits_member [OF e n] nul nul_free_clean [OF n] item x
        by (simp add: dereferenced_def member_text_def NUL_def)
    qed
    have "list_all2 (\<lambda>m t. emits (print_member m) t)
            (map (map_prod id dereferenced)
               (concat (map (map (map_prod id (map_option (\<lambda>e. cjson_to_str_rec e lf False)))) m)))
            (map member_text (concat (map (map (map_prod id (map_option render))) m)))"
      using each by (simp add: map_concat [symmetric] list_all2_map1 list_all2_map2 list_all2_same)
    from emits_object [OF this]
    have "emits (to_str_value (VObject m) t lf False) (render_value (VObject m))"
      using t by simp
    moreover have "NUL \<notin> set (separated (map member_text
          (concat (map (map (map_prod id (map_option render))) m))))"
      using each by (intro nul_free_separated) (auto simp: map_concat [symmetric])
    then have "NUL \<notin> set (render_value (VObject m))"
      by (simp add: NUL_def)
    ultimately show "emits (to_str_value (VObject m) t lf False) (render_value (VObject m)) \<and>
        NUL \<notin> set (render_value (VObject m))"
      by simp
  qed
qed

lemma to_str_render:
  assumes "plain e"
  shows "cjson_to_str lf (Some e) False = Inr (render e)" and "NUL \<notin> set (render e)"
proof -
  from to_str_render_both(1) [of e lf] assms
  have em: "emits (cjson_to_str_rec e lf False) (render e)" and nul: "NUL \<notin> set (render e)"
    by simp_all
  show "NUL \<notin> set (render e)" by (rule nul)
  from em obtain sb' where
    "cjson_to_str_rec e lf False (\<lparr>sb_str = [], sb_capacity = 0\<rparr>, 0) = Inr (sb', 0)"
    and "sb_str sb' = render e"
    unfolding emits_def by force
  then show "cjson_to_str lf (Some e) False = Inr (render e)"
    using nul by (simp add: cjson_to_str_def to_str_pointer_def dereferenced_def c_str_terminated)
qed



section \<open>The lexer on a known input\<close>

lemma parse_ws_nospace:
  assumes "drop (location L) (content L) = u" and "nospace u"
  shows "cjson_parse_ws L = L"
proof -
  have "takeWhile isspace u = []"
    using assms(2) by (cases u) (auto simp: nospace_def)
  then show ?thesis using assms(1) by (simp add: cjson_parse_ws_def)
qed

lemma ws_ready: "ready c L u \<Longrightarrow> nospace u \<Longrightarrow> cjson_parse_ws L = L"
  by (rule parse_ws_nospace) (auto simp: ready_def)

lemma ws_held: "held c L ty u \<Longrightarrow> nospace u \<Longrightarrow> cjson_parse_ws L = L"
  by (rule parse_ws_nospace) (auto simp: held_def)

lemma peek_ready:
  assumes r: "ready c L u" and t: "read_token strtod u (token L) = Inr (tok, k)"
    and k: "k \<le> length u" and ty: "tok_type tok \<noteq> CJSON_TOK_NONE"
  shows "\<exists>L'. cjson_lexer_peek strtod L = Inr L' \<and> held c L' (tok_type tok) (drop k u) \<and>
              token L' = tok\<lparr>tok_content := take k u, tok_content_len := k\<rparr>"
proof -
  let ?L' = "L\<lparr>token := tok\<lparr>tok_content := take k u, tok_content_len := k\<rparr>,
               location := location L + k\<rparr>"
  have "length u = length c - location L" using r by (auto simp: ready_def)
  with k r have le: "location L + k \<le> length c" by (auto simp: ready_def)
  have "cjson_lexer_peek strtod L = Inr ?L'"
    using r t by (simp add: cjson_lexer_peek_def cjson_read_next_token_def ready_def)
  moreover have "held c ?L' (tok_type tok) (drop k u)"
    using r ty le by (auto simp: held_def ready_def add.commute)
  ultimately show ?thesis by simp
qed

lemma peek_held: "held c L ty u \<Longrightarrow> cjson_lexer_peek strtod L = Inr L"
  by (simp add: cjson_lexer_peek_def held_def)

lemma pop_held:
  assumes "held c L ty u"
  shows "\<exists>L'. cjson_lexer_pop strtod L = Inr (token L, L') \<and> ready c L' u"
  using assms by (simp add: cjson_lexer_pop_def peek_held [OF assms] held_def ready_def)

text \<open>Reading one token of a known kind from a lexer that holds none.\<close>

lemma pop_ready:
  assumes r: "ready c L u" and t: "read_token strtod u (token L) = Inr (tok, k)"
    and k: "k \<le> length u" and ty: "tok_type tok \<noteq> CJSON_TOK_NONE"
  shows "\<exists>L'. cjson_lexer_pop strtod L = Inr (tok\<lparr>tok_content := take k u, tok_content_len := k\<rparr>, L') \<and>
              ready c L' (drop k u)"
proof -
  from peek_ready [OF r t k ty] obtain L1 where
    p: "cjson_lexer_peek strtod L = Inr L1" and h: "held c L1 (tok_type tok) (drop k u)"
    and tk: "token L1 = tok\<lparr>tok_content := take k u, tok_content_len := k\<rparr>"
    by blast
  from h have "ready c (L1\<lparr>token := (token L1)\<lparr>tok_type := CJSON_TOK_NONE\<rparr>\<rparr>) (drop k u)"
    by (simp add: held_def ready_def)
  with p tk show ?thesis
    by (simp add: cjson_lexer_pop_def)
qed

lemma read_punct:
  "read_token strtod (CHR '','' # u) tok = Inr (tok\<lparr>tok_type := CJSON_TOK_COMMA\<rparr>, 1)"
  "read_token strtod (CHR '':'' # u) tok = Inr (tok\<lparr>tok_type := CJSON_TOK_COLON\<rparr>, 1)"
  "read_token strtod (CHR ''['' # u) tok = Inr (tok\<lparr>tok_type := CJSON_TOK_LBRACK\<rparr>, 1)"
  "read_token strtod (CHR '']'' # u) tok = Inr (tok\<lparr>tok_type := CJSON_TOK_RBRACK\<rparr>, 1)"
  "read_token strtod (CHR ''{'' # u) tok = Inr (tok\<lparr>tok_type := CJSON_TOK_LBRACE\<rparr>, 1)"
  "read_token strtod (CHR ''}'' # u) tok = Inr (tok\<lparr>tok_type := CJSON_TOK_RBRACE\<rparr>, 1)"
  by (simp_all add: read_token_def byte_at_def isdigit_def Let_def)

lemma read_keyword:
  "read_token strtod (''null'' @ u) tok = Inr (tok\<lparr>tok_type := CJSON_TOK_NULL\<rparr>, 4)"
  "read_token strtod (''true'' @ u) tok = Inr (tok\<lparr>tok_type := CJSON_TOK_TRUE\<rparr>, 4)"
  "read_token strtod (''false'' @ u) tok = Inr (tok\<lparr>tok_type := CJSON_TOK_FALSE\<rparr>, 5)"
  by (simp_all add: read_token_def byte_at_def isdigit_def Let_def)

lemma scan_string_clean:
  "clean s \<Longrightarrow> scan_string (s @ CHR ''\"'' # u) k = Inr (CJSON_TOK_STRING, k + length s + 1)"
  by (induction s arbitrary: k) (simp_all add: clean_def)

lemma read_string:
  assumes "clean s"
  shows "read_token strtod (CHR ''\"'' # s @ CHR ''\"'' # u) tok
           = Inr (tok\<lparr>tok_type := CJSON_TOK_STRING\<rparr>, length s + 2)"
  using scan_string_clean [OF assms, of u 1]
  by (simp add: read_token_def byte_at_def isdigit_def Let_def)

lemma extract_loop_clean:
  "clean s \<Longrightarrow> extract_loop (s @ r) (length s) = Inr (Some s)"
  by (induction s) (simp_all add: clean_def)

lemma extract_string_clean:
  assumes "clean s" and "tok_type tok = CJSON_TOK_STRING"
    and "tok_content tok = CHR ''\"'' # s @ [CHR ''\"'']" and "tok_content_len tok = length s + 2"
  shows "cjson_extract_string tok = Inr (Some s)"
  using assms extract_loop_clean [OF assms(1), of "[CHR ''\"'']"]
  by (simp add: cjson_extract_string_def c_str_clean)

lemma member_name_clean:
  assumes "clean s"
  shows "strndup (drop 1 (CHR ''\"'' # s @ [CHR ''\"''])) (length s + 2 - 2) = s"
  using assms by (simp add: strndup_def c_str_clean)

lemma takeWhile_digits:
  assumes "list_all isdigit xs" and "nodigit u"
  shows "takeWhile isdigit (xs @ u) = xs"
proof -
  have "takeWhile isdigit u = []"
    using assms(2) by (cases u) (auto simp: nodigit_def)
  then show ?thesis
    using assms(1) by (simp add: takeWhile_append2 list_all_iff)
qed

lemma strtol_digits:
  assumes d: "list_all isdigit ds" and ne: "ds \<noteq> []" and u: "nodigit u" and b: "decimal ds < 2 ^ 63"
  shows "strtol (ds @ u) = int (decimal ds)"
proof -
  obtain x xs where ds: "ds = x # xs" using ne by (cases ds) auto
  with d have x: "isdigit x" by simp
  then have nsp: "\<not> isspace x" and nm: "x \<noteq> CHR ''-''" and np: "x \<noteq> CHR ''+''"
    using isdigit_not by blast+
  have tw: "takeWhile isdigit (x # xs @ u) = x # xs"
    using takeWhile_digits [OF d u] ds by simp
  have "int (decimal (x # xs)) \<le> 2 ^ 63 - 1"
    using b ds by simp
  then show ?thesis
    using nsp nm np tw unfolding ds strtol_def Let_def by simp
qed

lemma read_integer:
  assumes n: "n < 2 ^ 31" and u: "nodigit u"
  shows "read_token strtod (decimal_digits n @ u) tok
           = Inr (tok\<lparr>tok_type := CJSON_TOK_INTEGER, tok_integer_value := of_nat n\<rparr>,
                  length (decimal_digits n))"
proof -
  let ?ds = "decimal_digits n"
  from decimal_digits_props [of n]
  have d: "list_all isdigit ?ds" and v: "decimal ?ds = n" and ne: "?ds \<noteq> []"
    and z: "hd ?ds = CHR ''0'' \<longrightarrow> n = 0"
    by simp_all
  obtain x xs where ds: "?ds = x # xs" using ne by (cases ?ds) auto
  with d have x: "isdigit x" and xs: "list_all isdigit xs" by simp_all
  have nm: "x \<noteq> CHR ''-''" using x isdigit_not by blast
  have len: "(if x \<noteq> CHR ''0'' then 1 + length (takeWhile isdigit (xs @ u)) else 1) = length ?ds"
  proof (cases "x = CHR ''0''")
    case True
    with z ds have "n = 0" by simp
    then have "?ds = [CHR ''0'']" by (simp add: decimal_digits_small)
    with True show ?thesis by simp
  next
    case False
    then show ?thesis using takeWhile_digits [OF xs u] ds by simp
  qed
  have "decimal ?ds < 2 ^ 63" using v n by simp
  from strtol_digits [OF d ne u this] have st: "strtol (?ds @ u) = int n" using v by simp
  have nodot: "\<not> (byte_at (?ds @ u) (length ?ds) = CHR ''.'')"
    using u by (cases u) (auto simp: byte_at_def nodigit_def NUL_def nth_append)
  have b0: "byte_at (?ds @ u) 0 = x" by (simp add: byte_at_def ds)
  have tl: "(if byte_at (?ds @ u) 0 \<noteq> CHR ''0''
             then 1 + length (takeWhile isdigit (drop 1 (?ds @ u))) else 1) = length ?ds"
    using len by (simp add: ds byte_at_def split: if_splits)
  have "read_number strtod (?ds @ u) tok
          = (tok\<lparr>tok_type := CJSON_TOK_INTEGER, tok_integer_value := of_nat n\<rparr>, length ?ds)"
    unfolding read_number_def Let_def tl
    by (simp add: b0 nm st nodot)
  then show ?thesis
    using x nm by (simp add: read_token_def Let_def b0)
qed



section \<open>The parser on the compact text of a plain tree\<close>

lemma delim_nospace: "delim u \<Longrightarrow> nospace u"
  by (auto simp: delim_def nospace_def isspace_def)

lemma delim_nodigit: "delim u \<Longrightarrow> nodigit u"
  by (auto simp: delim_def nodigit_def isdigit_def)

lemma delim_Cons [simp]:
  "delim (CHR '','' # u)" "delim (CHR '']'' # u)" "delim (CHR ''}'' # u)"
  by (simp_all add: delim_def)


lemma plain_cases:
  assumes "plain T"
  obtains "T = Element CJSON_NULL Zeroed"
  | b where "T = Element CJSON_BOOL (VBoolean b)"
  | i where "T = Element CJSON_INTEGER (VInteger i)" and "0 \<le> sint i"
  | s where "T = Element CJSON_STRING (VString (Some s))" and "clean s"
  | es cap where "T = Element CJSON_ARRAY (VArray es cap)"
  | m where "T = Element CJSON_OBJECT (VObject m)"
proof -
  obtain t v where T: "T = Element t v" by (cases T)
  show thesis
  proof (cases v)
    case Zeroed
    with assms T that(1) show ?thesis by simp
  next
    case (VBoolean b)
    with assms T that(2) show ?thesis by simp
  next
    case (VInteger i)
    with assms T that(3) show ?thesis by simp
  next
    case (VFraction d)
    with assms T show ?thesis by simp
  next
    case (VString x)
    with assms T that(4) show ?thesis by (cases x) simp_all
  next
    case (VArray es cap)
    with assms T that(5) show ?thesis by simp
  next
    case (VObject m)
    with assms T that(6) show ?thesis by simp
  qed
qed

lemma render_nospace:
  assumes "plain T"
  shows "render T \<noteq> [] \<and> \<not> isspace (hd (render T))"
  using assms
proof (cases rule: plain_cases)
  case (3 i)
  from decimal_digits_props [of "nat (sint i)"]
  have "decimal_digits (nat (sint i)) \<noteq> []" and "list_all isdigit (decimal_digits (nat (sint i)))"
    by simp_all
  then have "isdigit (hd (decimal_digits (nat (sint i))))"
    by (cases "decimal_digits (nat (sint i))") simp_all
  with 3 sprintf_d_nonneg(1) [OF 3(2)] \<open>decimal_digits (nat (sint i)) \<noteq> []\<close> isdigit_not
  show ?thesis by auto
qed (auto simp: isspace_def)

lemma nospace_render: "plain T \<Longrightarrow> nospace (render T @ u)"
  using render_nospace [of T] by (auto simp: nospace_def)

lemma separated_Cons: "separated (x # xs) = x @ concat (map (\<lambda>y. CHR '','' # y) xs)"
  by (simp add: separated_def)

lemma first_token:
  assumes p: "plain T" and d: "delim u"
  shows "\<exists>tok k. read_token strtod (render T @ u) tok0 = Inr (tok, k) \<and>
           k \<le> length (render T @ u) \<and> value_start (tok_type tok) \<and>
           nospace (drop k (render T @ u))"
  using p
proof (cases rule: plain_cases)
  case 1
  then show ?thesis
    using read_keyword(1) [of strtod u tok0] delim_nospace [OF d]
    by (simp add: value_start_def)
next
  case (2 b)
  then show ?thesis
    using read_keyword(2,3) [of strtod u tok0] delim_nospace [OF d]
    by (cases b) (simp_all add: value_start_def)
next
  case (3 i)
  from sprintf_d_nonneg [OF 3(2)]
  have r: "sprintf_d i = decimal_digits (nat (sint i))" and b: "nat (sint i) < 2 ^ 31" by simp_all
  show ?thesis
    using read_integer [OF b delim_nodigit [OF d], of strtod tok0] 3(1) r delim_nospace [OF d]
    by (simp add: value_start_def)
next
  case (4 s)
  then show ?thesis
    using read_string [OF 4(2), of strtod u tok0] delim_nospace [OF d]
    by (simp add: value_start_def)
next
  case (5 es cap)
  have "nospace (separated (map (case_option [] id) (map (map_option render) es)) @ CHR '']'' # u)"
  proof (cases es)
    case Nil
    then show ?thesis by (simp add: separated_def nospace_def isspace_def)
  next
    case (Cons x xs)
    with p 5 obtain e where x: "x = Some e" and e: "plain e"
      by (cases x) auto
    from nospace_render [OF e] show ?thesis
      using Cons x by (simp add: separated_Cons)
  qed
  then show ?thesis
    using 5 read_punct(3) [of strtod _ tok0] by (simp add: value_start_def)
next
  case (6 m)
  have "nospace (separated (map member_text (concat (map (map (map_prod id (map_option render))) m)))
           @ CHR ''}'' # u)"
  proof (cases "concat (map (map (map_prod id (map_option render))) m)")
    case Nil
    have e: "separated (map member_text (concat (map (map (map_prod id (map_option render))) m))) = []"
      unfolding Nil by (simp add: separated_def)
    show ?thesis unfolding e by (simp add: nospace_def isspace_def)
  next
    case (Cons x xs)
    have e: "separated (map member_text (concat (map (map (map_prod id (map_option render))) m)))
        = member_text x @ concat (map (\<lambda>y. CHR '','' # y) (map member_text xs))"
      unfolding Cons by (simp add: separated_Cons)
    show ?thesis unfolding e
      by (cases x) (simp add: member_text_def nospace_def isspace_def)
  qed
  then show ?thesis
    using 6 read_punct(5) [of strtod _ tok0] by (simp add: value_start_def)
qed

lemma parse_value_peek_cong:
  "cjson_lexer_peek strtod L = cjson_lexer_peek strtod L0 \<Longrightarrow>
   cjson_parse_value k strtod E L e = cjson_parse_value k strtod E L0 e"
  by (simp add: cjson_parse_value_def)

lemma starts_reduce:
  assumes s: "starts strtod c L (render T @ u)" and p: "plain T" and d: "delim u"
  shows "\<exists>L0. ready c L0 (render T @ u) \<and>
              cjson_lexer_peek strtod L = cjson_lexer_peek strtod L0 \<and> cjson_parse_ws L = L"
  using s unfolding starts_def
proof
  assume r: "ready c L (render T @ u)"
  then show ?thesis using ws_ready [OF r nospace_render [OF p]] by blast
next
  assume "\<exists>L0. ready c L0 (render T @ u) \<and> cjson_lexer_peek strtod L0 = Inr L"
  then obtain L0 where r: "ready c L0 (render T @ u)" and pk: "cjson_lexer_peek strtod L0 = Inr L"
    by blast
  from first_token [OF p d, of strtod "token L0"] obtain tok k where
    t: "read_token strtod (render T @ u) (token L0) = Inr (tok, k)"
    and k: "k \<le> length (render T @ u)" and vs: "value_start (tok_type tok)"
    and ns: "nospace (drop k (render T @ u))"
    by blast
  from vs have ty: "tok_type tok \<noteq> CJSON_TOK_NONE" by (auto simp: value_start_def)
  from peek_ready [OF r t k ty] pk
  have h: "held c L (tok_type tok) (drop k (render T @ u))" by auto
  have "cjson_lexer_peek strtod L = Inr L" using peek_held [OF h] .
  moreover have "cjson_parse_ws L = L" using ws_held [OF h ns] .
  ultimately show ?thesis using r pk by auto
qed

lemma elem_of_value:
  assumes p: "plain T" and v: "value_ok strtod f (cjson_parse_element f strtod) T"
  shows "elem_ok strtod (cjson_parse_element (Suc f) strtod) T"
  unfolding elem_ok_def
proof (intro allI impI)
  fix c L u
  assume s: "starts strtod c L (render T @ u)" and d: "delim u"
  from starts_reduce [OF s p d] obtain L0 where r: "ready c L0 (render T @ u)"
    and pk: "cjson_lexer_peek strtod L = cjson_lexer_peek strtod L0" and ws: "cjson_parse_ws L = L"
    by blast
  from v r d obtain T' L' where
    pv: "cjson_parse_value f strtod (cjson_parse_element f strtod) L0 False = Inr (Some T', L', False)"
    and r': "ready c L' u" and eq: "struct_eq T' T"
    unfolding value_ok_def by blast
  have "cjson_parse_ws L' = L'" using ws_ready [OF r' delim_nospace [OF d]] .
  then have "cjson_parse_element (Suc f) strtod L False = Inr (Some T', L', False)"
    using ws pv parse_value_peek_cong [OF pk] by simp
  with r' eq show "\<exists>T' L'. cjson_parse_element (Suc f) strtod L False = Inr (Some T', L', False) \<and>
      ready c L' u \<and> struct_eq T' T"
    by blast
qed



text \<open>Scalars.\<close>

lemma value_scalar:
  assumes r: "ready c L (txt @ u)"
    and t: "read_token strtod (txt @ u) (token L) = Inr (tok, length txt)"
    and ty: "tok_type tok \<in> {CJSON_TOK_INTEGER, CJSON_TOK_TRUE, CJSON_TOK_FALSE, CJSON_TOK_NULL}"
  shows "\<exists>L'. cjson_parse_value k strtod E L False =
           Inr (Some (if tok_type tok = CJSON_TOK_INTEGER
                      then Element CJSON_INTEGER (VInteger (tok_integer_value tok))
                      else if tok_type tok = CJSON_TOK_TRUE then Element CJSON_BOOL (VBoolean True)
                      else if tok_type tok = CJSON_TOK_FALSE then Element CJSON_BOOL (VBoolean False)
                      else Element CJSON_NULL Zeroed), L', False) \<and> ready c L' u"
proof -
  from ty have ne: "tok_type tok \<noteq> CJSON_TOK_NONE" by auto
  from peek_ready [OF r t _ ne] obtain L1 where
    p: "cjson_lexer_peek strtod L = Inr L1" and h: "held c L1 (tok_type tok) u"
    and tk: "token L1 = tok\<lparr>tok_content := take (length txt) (txt @ u), tok_content_len := length txt\<rparr>"
    by auto
  from pop_held [OF h] obtain L2 where
    pp: "cjson_lexer_pop strtod L1 = Inr (token L1, L2)" and r2: "ready c L2 u"
    by blast
  show ?thesis
    using ty p pp r2 tk by (auto simp: cjson_parse_value_def Let_def)
qed

lemma value_string:
  assumes r: "ready c L (CHR ''\"'' # s @ CHR ''\"'' # u)" and s: "clean s"
  shows "\<exists>L'. cjson_parse_value k strtod E L False =
           Inr (Some (Element CJSON_STRING (VString (Some s))), L', False) \<and> ready c L' u"
proof -
  let ?txt = "CHR ''\"'' # s @ CHR ''\"'' # u"
  let ?tok = "(token L)\<lparr>tok_type := CJSON_TOK_STRING\<rparr>"
  have t: "read_token strtod ?txt (token L) = Inr (?tok, length s + 2)"
    by (rule read_string [OF s])
  have k: "length s + 2 \<le> length ?txt" by simp
  have ne: "tok_type ?tok \<noteq> CJSON_TOK_NONE" by simp
  from peek_ready [OF r t k ne] obtain L1 where
    p: "cjson_lexer_peek strtod L = Inr L1" and h: "held c L1 CJSON_TOK_STRING u"
    and tk: "token L1 = ?tok\<lparr>tok_content := take (length s + 2) ?txt, tok_content_len := length s + 2\<rparr>"
    by auto
  have tc: "tok_content (token L1) = CHR ''\"'' # s @ [CHR ''\"'']" using tk by simp
  have ex: "cjson_extract_string (token L1) = Inr (Some s)"
    by (rule extract_string_clean [OF s _ tc]) (simp_all add: tk)
  from pop_held [OF h] obtain L2 where
    pp: "cjson_lexer_pop strtod L1 = Inr (token L1, L2)" and r2: "ready c L2 u"
    by blast
  show ?thesis
    using p pp r2 ex h by (auto simp: cjson_parse_value_def Let_def held_def)
qed

lemma word_of_nat_sint: "0 \<le> sint (i :: 32 word) \<Longrightarrow> of_nat (nat (sint i)) = i"
proof -
  assume "0 \<le> sint i"
  then have "of_nat (nat (sint i)) = (of_int (sint i) :: 32 word)" by simp
  then show ?thesis by simp
qed

lemma value_ok_scalar:
  assumes p: "plain T"
    and na: "\<And>es cap. T \<noteq> Element CJSON_ARRAY (VArray es cap)"
    and no: "\<And>m. T \<noteq> Element CJSON_OBJECT (VObject m)"
  shows "value_ok strtod k E T"
  unfolding value_ok_def
proof (intro allI impI)
  fix c L u
  assume r: "ready c L (render T @ u)" and d: "delim u"
  let ?goal = "\<exists>T' L'. cjson_parse_value k strtod E L False = Inr (Some T', L', False) \<and>
                 ready c L' u \<and> struct_eq T' T"
  from p show ?goal
  proof (cases rule: plain_cases)
    case 1
    have t: "read_token strtod (''null'' @ u) (token L)
               = Inr ((token L)\<lparr>tok_type := CJSON_TOK_NULL\<rparr>, length ''null'')"
      using read_keyword(1) [of strtod u "token L"] by simp
    from r 1 have r': "ready c L (''null'' @ u)" by simp
    from value_scalar [OF r' t, of k E] show ?thesis
      using 1 by (auto intro: struct_eq.scalar)
  next
    case (2 b)
    show ?thesis
    proof (cases b)
      case True
      have t: "read_token strtod (''true'' @ u) (token L)
                 = Inr ((token L)\<lparr>tok_type := CJSON_TOK_TRUE\<rparr>, length ''true'')"
        using read_keyword(2) [of strtod u "token L"] by simp
      from r 2 True have r': "ready c L (''true'' @ u)" by simp
      from value_scalar [OF r' t, of k E] show ?thesis
        using 2 True by (auto intro: struct_eq.scalar)
    next
      case False
      have t: "read_token strtod (''false'' @ u) (token L)
                 = Inr ((token L)\<lparr>tok_type := CJSON_TOK_FALSE\<rparr>, length ''false'')"
        using read_keyword(3) [of strtod u "token L"] by simp
      from r 2 False have r': "ready c L (''false'' @ u)" by simp
      from value_scalar [OF r' t, of k E] show ?thesis
        using 2 False by (auto intro: struct_eq.scalar)
    qed
  next
    case (3 i)
    let ?n = "nat (sint i)"
    from sprintf_d_nonneg [OF 3(2)]
    have rd: "sprintf_d i = decimal_digits ?n" and b: "?n < 2 ^ 31" by simp_all
    have t: "read_token strtod (decimal_digits ?n @ u) (token L)
               = Inr ((token L)\<lparr>tok_type := CJSON_TOK_INTEGER, tok_integer_value := of_nat ?n\<rparr>,
                      length (decimal_digits ?n))"
      by (rule read_integer [OF b delim_nodigit [OF d]])
    from r 3 rd have r': "ready c L (decimal_digits ?n @ u)" by simp
    from value_scalar [OF r' t, of k E] show ?thesis
      using 3 word_of_nat_sint [OF 3(2)] by (auto intro: struct_eq.scalar)
  next
    case (4 s)
    from r 4 have r': "ready c L (CHR ''\"'' # s @ CHR ''\"'' # u)" by simp
    from value_string [OF r' 4(2), of k strtod E] show ?thesis
      using 4 by (auto intro: struct_eq.scalar)
  next
    case (5 es cap)
    with na show ?thesis by blast
  next
    case (6 m)
    with no show ?thesis by blast
  qed
qed

text \<open>Arrays.\<close>

lemma delim_tail: "delim (concat (map (\<lambda>y. CHR '','' # y) ts) @ CHR '']'' # u)"
  by (cases ts) simp_all

lemma array_loop:
  assumes "\<forall>x \<in> set xs. plain x \<and> elem_ok strtod E x"
    and "ready c L (concat (map (\<lambda>y. CHR '','' # y) (map render xs)) @ CHR '']'' # u)"
    and "length xs < k"
  shows "\<exists>L' a' xs'. parse_array_loop k strtod E L a False = Inr (L', a', False) \<and>
           held c L' CJSON_TOK_RBRACK u \<and> elements a' = elements a @ map Some xs' \<and>
           list_all2 struct_eq xs' xs"
  using assms
proof (induction xs arbitrary: L a k)
  case Nil
  then obtain k' where k: "k = Suc k'" by (cases k) auto
  from Nil have r: "ready c L (CHR '']'' # u)" by simp
  from peek_ready [OF r read_punct(4)] obtain L1 where
    p: "cjson_lexer_peek strtod L = Inr L1" and h: "held c L1 CJSON_TOK_RBRACK u"
    by auto
  have "parse_array_loop k strtod E L a False = Inr (L1, a, False)"
    using k p h by (simp add: held_def)
  with h show ?case by auto
next
  case (Cons x xs)
  then obtain k' where k: "k = Suc k'" and k': "length xs < k'" by (cases k) auto
  let ?rest = "concat (map (\<lambda>y. CHR '','' # y) (map render xs)) @ CHR '']'' # u"
  from Cons.prems have r: "ready c L (CHR '','' # render x @ ?rest)" by simp
  from peek_ready [OF r read_punct(1)] obtain L1 where
    p: "cjson_lexer_peek strtod L = Inr L1" and h: "held c L1 CJSON_TOK_COMMA (render x @ ?rest)"
    by auto
  from pop_held [OF h] obtain L2 where
    pp: "cjson_lexer_pop strtod L1 = Inr (token L1, L2)" and r2: "ready c L2 (render x @ ?rest)"
    by blast
  from r2 have s: "starts strtod c L2 (render x @ ?rest)" by (simp add: starts_def)
  from Cons.prems have ok: "elem_ok strtod E x" by simp
  from ok s delim_tail obtain x' L3 where
    e: "E L2 False = Inr (Some x', L3, False)" and r3: "ready c L3 ?rest" and eq: "struct_eq x' x"
    unfolding elem_ok_def by blast
  from Cons.prems have all: "\<forall>x \<in> set xs. plain x \<and> elem_ok strtod E x" by simp
  from Cons.IH [OF all r3 k', of "cjson_array_append a (Some x')"] obtain L' a' xs' where
    l: "parse_array_loop k' strtod E L3 (cjson_array_append a (Some x')) False = Inr (L', a', False)"
    and h': "held c L' CJSON_TOK_RBRACK u"
    and el: "elements a' = elements (cjson_array_append a (Some x')) @ map Some xs'"
    and eqs: "list_all2 struct_eq xs' xs"
    by blast
  have "parse_array_loop k strtod E L a False = Inr (L', a', False)"
    using k p h pp e l by (simp add: held_def)
  moreover have "elements a' = elements a @ map Some (x' # xs')"
    using el by (simp add: elements_append)
  moreover have "list_all2 struct_eq (x' # xs') (x # xs)" using eq eqs by simp
  ultimately show ?case using h' by blast
qed

lemma render_array:
  "render (Element CJSON_ARRAY (VArray (map Some xs) cap))
     = CHR ''['' # separated (map render xs) @ '']''"
  by (simp add: comp_def)

lemma struct_eq_array:
  "list_all2 struct_eq xs' xs \<Longrightarrow>
   struct_eq (array_element \<lparr>elements = map Some xs', capacity = cap'\<rparr>)
             (Element CJSON_ARRAY (VArray (map Some xs) cap))"
  unfolding array_element_def
  by (simp add: struct_eq.array list_all2_map1 list_all2_map2)

lemma value_ok_array:
  assumes all: "\<forall>x \<in> set xs. plain x \<and> elem_ok strtod E x" and len: "length xs \<le> k"
  shows "value_ok strtod k E (Element CJSON_ARRAY (VArray (map Some xs) cap))"
  unfolding value_ok_def
proof (intro allI impI)
  fix c L u
  let ?T = "Element CJSON_ARRAY (VArray (map Some xs) cap)"
  let ?rest = "separated (map render xs) @ CHR '']'' # u"
  assume "ready c L (render ?T @ u)" and d: "delim u"
  then have r: "ready c L (CHR ''['' # ?rest)" by (simp add: comp_def)
  from peek_ready [OF r read_punct(3)] obtain L1 where
    p: "cjson_lexer_peek strtod L = Inr L1" and h: "held c L1 CJSON_TOK_LBRACK ?rest"
    by auto
  from pop_held [OF h] obtain L2 where
    pp: "cjson_lexer_pop strtod L1 = Inr (token L1, L2)" and r2: "ready c L2 ?rest"
    by blast
  have ty1: "tok_type (token L1) = CJSON_TOK_LBRACK" using h by (simp add: held_def)
  have pv: "cjson_parse_value k strtod E L False = cjson_parse_array k strtod E L1 False"
    using p ty1 by (simp add: cjson_parse_value_def Let_def)
  show "\<exists>T' L'. cjson_parse_value k strtod E L False = Inr (Some T', L', False) \<and>
          ready c L' u \<and> struct_eq T' ?T"
  proof (cases xs)
    case Nil
    with r2 have r2: "ready c L2 (CHR '']'' # u)" by (simp add: separated_def)
    have ws: "cjson_parse_ws L2 = L2"
      by (rule ws_ready [OF r2]) (simp add: nospace_def isspace_def)
    from peek_ready [OF r2 read_punct(4)] obtain L3 where
      p3: "cjson_lexer_peek strtod L2 = Inr L3" and h3: "held c L3 CJSON_TOK_RBRACK u"
      by auto
    from pop_held [OF h3] obtain L4 where
      pp3: "cjson_lexer_pop strtod L3 = Inr (token L3, L4)" and r4: "ready c L4 u"
      by blast
    have "cjson_parse_array k strtod E L1 False
            = Inr (Some (array_element \<lparr>elements = map Some [], capacity = 0\<rparr>), L4, False)"
      using pp ws p3 h3 pp3 by (simp add: cjson_parse_array_def Let_def held_def)
    moreover have "struct_eq (array_element \<lparr>elements = map Some [], capacity = 0\<rparr>) ?T"
      using Nil struct_eq_array [of "[]" "[]"] by simp
    ultimately show ?thesis using pv r4 by auto
  next
    case (Cons x ys)
    let ?tail = "concat (map (\<lambda>y. CHR '','' # y) (map render ys)) @ CHR '']'' # u"
    from r2 Cons have r2: "ready c L2 (render x @ ?tail)" by (simp add: separated_Cons)
    from all Cons have px: "plain x" and ok: "elem_ok strtod E x"
      and rest: "\<forall>x \<in> set ys. plain x \<and> elem_ok strtod E x" by simp_all
    have ws: "cjson_parse_ws L2 = L2"
      by (rule ws_ready [OF r2 nospace_render [OF px]])
    from first_token [OF px delim_tail, of strtod "map render ys" u "token L2"] obtain tok n where
      t: "read_token strtod (render x @ ?tail) (token L2) = Inr (tok, n)"
      and n: "n \<le> length (render x @ ?tail)" and vs: "value_start (tok_type tok)"
      by blast
    from vs have ne: "tok_type tok \<noteq> CJSON_TOK_NONE" by (auto simp: value_start_def)
    from peek_ready [OF r2 t n ne] obtain L3 where
      p3: "cjson_lexer_peek strtod L2 = Inr L3" and h3: "held c L3 (tok_type tok) (drop n (render x @ ?tail))"
      by blast
    have ty3: "tok_type (token L3) \<noteq> CJSON_TOK_RBRACK"
      using h3 vs by (auto simp: held_def value_start_def)
    have s: "starts strtod c L3 (render x @ ?tail)"
      unfolding starts_def using r2 p3 by blast
    from ok s delim_tail obtain x' L4 where
      e: "E L3 False = Inr (Some x', L4, False)" and r4: "ready c L4 ?tail" and eq: "struct_eq x' x"
      unfolding elem_ok_def by blast
    from len Cons have "length ys < k" by simp
    from array_loop [OF rest r4 this, of "cjson_array_append \<lparr>elements = [], capacity = 0\<rparr> (Some x')"]
    obtain L5 a' xs' where
      l: "parse_array_loop k strtod E L4 (cjson_array_append \<lparr>elements = [], capacity = 0\<rparr> (Some x')) False
            = Inr (L5, a', False)"
      and h5: "held c L5 CJSON_TOK_RBRACK u"
      and el: "elements a' = elements (cjson_array_append \<lparr>elements = [], capacity = 0\<rparr> (Some x')) @ map Some xs'"
      and eqs: "list_all2 struct_eq xs' ys"
      by blast
    from pop_held [OF h5] obtain L6 where
      pp5: "cjson_lexer_pop strtod L5 = Inr (token L5, L6)" and r6: "ready c L6 u"
      by blast
    have "cjson_parse_array k strtod E L1 False = Inr (Some (array_element a'), L6, False)"
      using pp ws p3 ty3 e l peek_held [OF h5, of strtod] h5 pp5
      by (simp add: cjson_parse_array_def Let_def held_def)
    moreover have "elements a' = map Some (x' # xs')" using el by (simp add: elements_append)
    then have "a' = \<lparr>elements = map Some (x' # xs'), capacity = capacity a'\<rparr>" by simp
    then have "struct_eq (array_element a') ?T"
      using struct_eq_array [of "x' # xs'" "x # ys" "capacity a'" cap] eq eqs Cons by simp
    ultimately show ?thesis using pv r6 by auto
  qed
qed



text \<open>Objects.\<close>

lemma member_of_dom: "dom (member_of m) = fst ` set (map_entries m)"
  unfolding member_of_def [abs_def] by (rule dom_map_of_conv_image_fst)

lemma map_of_middle:
  assumes "n \<notin> fst ` set xs"
  shows "map_of (xs @ (n, e) # ys) = (map_of (xs @ ys))(n \<mapsto> e)"
proof -
  have "n \<notin> dom (map_of xs)" using assms by (simp add: dom_map_of_conv_image_fst)
  then show ?thesis by (simp add: map_add_upd_left)
qed

lemma member_of_push:
  assumes h: "h < length m" and n: "n \<notin> dom (member_of m)"
  shows "member_of (m[h := (n, e) # m ! h]) = (member_of m)(n \<mapsto> e)"
proof -
  let ?A = "concat (take h m)" and ?R = "m ! h @ concat (drop (Suc h) m)"
  have m: "concat m = ?A @ ?R"
    using id_take_nth_drop [OF h] by (metis concat.simps(2) concat_append)
  have m': "concat (m[h := (n, e) # m ! h]) = ?A @ (n, e) # ?R"
    using upd_conv_take_nth_drop [OF h, of "(n, e) # m ! h"] by simp
  have "n \<notin> fst ` set ?A"
  proof
    assume "n \<in> fst ` set ?A"
    then have "n \<in> fst ` set (concat m)" unfolding m by auto
    with n show False by (simp add: member_of_dom map_entries_def)
  qed
  then have "map_of (?A @ (n, e) # ?R) = (map_of (?A @ ?R))(n \<mapsto> e)"
    by (rule map_of_middle)
  then show ?thesis
    unfolding member_of_def [abs_def] map_entries_def m' m .
qed

lemma member_insert:
  assumes len: "0 < length m" and inv: "map_inv m"
    and cl: "\<forall>k \<in> dom (member_of m). clean k" and n: "clean n" and fresh: "n \<notin> dom (member_of m)"
  shows "\<exists>m1. cjson_map_insert m n e = Inr m1 \<and> length m1 = length m \<and> map_inv m1 \<and>
           member_of m1 = (member_of m)(n \<mapsto> e)"
proof -
  let ?h = "unat (cjson_hash n) mod length m"
  have no: "\<forall>item \<in> set (map_entries m). \<not> strcmp_eq (fst item) n"
  proof
    fix item assume i: "item \<in> set (map_entries m)"
    then have d: "fst item \<in> dom (member_of m)" by (simp add: member_of_dom)
    with cl have "clean (fst item)" by blast
    then have "strcmp_eq (fst item) n \<longleftrightarrow> fst item = n"
      using n by (simp add: strcmp_eq_def c_str_clean)
    with d fresh show "\<not> strcmp_eq (fst item) n" by auto
  qed
  have h: "?h < length m" using len by simp
  from map_insert_fresh [OF len inv no refl, of e]
  have "cjson_map_insert m n e = Inr (m[?h := (n, e) # m ! ?h])"
    and "map_inv (m[?h := (n, e) # m ! ?h])"
    using n by (simp_all add: strdup_def c_str_clean)
  then show ?thesis using member_of_push [OF h fresh, of e] by simp
qed

lemma member_head:
  assumes st: "starts strtod c L (CHR ''\"'' # n @ CHR ''\"'' # v)" and n: "clean n"
    and v: "nospace v"
  shows "\<exists>tok L1. cjson_lexer_pop strtod (cjson_parse_ws L) = Inr (tok, L1) \<and> ready c L1 v \<and>
           tok_type tok = CJSON_TOK_STRING \<and> tok_content tok = CHR ''\"'' # n @ [CHR ''\"''] \<and>
           tok_content_len tok = length n + 2"
proof -
  let ?txt = "CHR ''\"'' # n @ CHR ''\"'' # v"
  have ns: "nospace ?txt" by (simp add: nospace_def isspace_def)
  have k: "length n + 2 \<le> length ?txt" by simp
  from st show ?thesis unfolding starts_def
  proof
    assume r: "ready c L ?txt"
    let ?tok = "(token L)\<lparr>tok_type := CJSON_TOK_STRING\<rparr>"
    have t: "read_token strtod ?txt (token L) = Inr (?tok, length n + 2)"
      by (rule read_string [OF n])
    have ne: "tok_type ?tok \<noteq> CJSON_TOK_NONE" by simp
    from pop_ready [OF r t k ne] obtain L1 where
      "cjson_lexer_pop strtod L
         = Inr (?tok\<lparr>tok_content := take (length n + 2) ?txt, tok_content_len := length n + 2\<rparr>, L1)"
      and "ready c L1 (drop (length n + 2) ?txt)"
      by blast
    then show ?thesis using ws_ready [OF r ns] by simp
  next
    assume "\<exists>L0. ready c L0 ?txt \<and> cjson_lexer_peek strtod L0 = Inr L"
    then obtain L0 where r: "ready c L0 ?txt" and pk: "cjson_lexer_peek strtod L0 = Inr L"
      by blast
    let ?tok = "(token L0)\<lparr>tok_type := CJSON_TOK_STRING\<rparr>"
    have t: "read_token strtod ?txt (token L0) = Inr (?tok, length n + 2)"
      by (rule read_string [OF n])
    have ne: "tok_type ?tok \<noteq> CJSON_TOK_NONE" by simp
    from peek_ready [OF r t k ne] pk
    have h: "held c L (tok_type ?tok) (drop (length n + 2) ?txt)"
      and tk: "token L = ?tok\<lparr>tok_content := take (length n + 2) ?txt, tok_content_len := length n + 2\<rparr>"
      by auto
    from h have h': "held c L CJSON_TOK_STRING v" by simp
    from pop_held [OF h'] obtain L1 where
      "cjson_lexer_pop strtod L = Inr (token L, L1)" and "ready c L1 v"
      by blast
    then show ?thesis using ws_held [OF h' v] tk by simp
  qed
qed

lemma parse_member_ok:
  assumes st: "starts strtod c L (CHR ''\"'' # n @ CHR ''\"'' # CHR '':'' # render x @ rest)"
    and n: "clean n" and ok: "elem_ok strtod E x" and d: "delim rest"
    and len: "0 < length m" and inv: "map_inv m"
    and cl: "\<forall>k \<in> dom (member_of m). clean k" and fresh: "n \<notin> dom (member_of m)"
  shows "\<exists>L' m' x'. cjson_parse_member strtod E L m False = Inr (L', m', False) \<and>
           ready c L' rest \<and> length m' = length m \<and> map_inv m' \<and>
           member_of m' = (member_of m)(n \<mapsto> Some x') \<and> struct_eq x' x"
proof -
  let ?v = "CHR '':'' # render x @ rest"
  have nv: "nospace ?v" by (simp add: nospace_def isspace_def)
  from member_head [OF st n nv] obtain tok L1 where
    pp: "cjson_lexer_pop strtod (cjson_parse_ws L) = Inr (tok, L1)" and r1: "ready c L1 ?v"
    and ty: "tok_type tok = CJSON_TOK_STRING" and tc: "tok_content tok = CHR ''\"'' # n @ [CHR ''\"'']"
    and tl: "tok_content_len tok = length n + 2"
    by blast
  have name: "strndup (drop 1 (tok_content tok)) (tok_content_len tok - 2) = n"
    unfolding tc tl by (rule member_name_clean [OF n])
  have ws1: "cjson_parse_ws L1 = L1" by (rule ws_ready [OF r1 nv])
  from peek_ready [OF r1 read_punct(2)] obtain L2 where
    p2: "cjson_lexer_peek strtod L1 = Inr L2" and h2: "held c L2 CJSON_TOK_COLON (render x @ rest)"
    by auto
  from pop_held [OF h2] obtain L3 where
    pp2: "cjson_lexer_pop strtod L2 = Inr (token L2, L3)" and r3: "ready c L3 (render x @ rest)"
    by blast
  from r3 have "starts strtod c L3 (render x @ rest)" by (simp add: starts_def)
  with ok d obtain x' L4 where
    e: "E L3 False = Inr (Some x', L4, False)" and r4: "ready c L4 rest" and eq: "struct_eq x' x"
    unfolding elem_ok_def by blast
  from member_insert [OF len inv cl n fresh, of "Some x'"] obtain m1 where
    ins: "cjson_map_insert m n (Some x') = Inr m1" and l1: "length m1 = length m"
    and i1: "map_inv m1" and mo: "member_of m1 = (member_of m)(n \<mapsto> Some x')"
    by blast
  have "cjson_parse_member strtod E L m False = Inr (L4, m1, False)"
    using pp ty name ws1 p2 h2 pp2 e ins
    by (simp add: cjson_parse_member_def Let_def held_def)
  with r4 l1 i1 mo eq show ?thesis by blast
qed



lemma delim_tail_brace: "delim (concat (map (\<lambda>y. CHR '','' # y) ts) @ CHR ''}'' # u)"
  by (cases ts) simp_all

lemma member_text_Some:
  "member_text (n, Some r) = CHR ''\"'' # n @ CHR ''\"'' # CHR '':'' # r"
  by (simp add: member_text_def)

lemma members_loop_ok:
  assumes "\<forall>item \<in> set es. clean (fst item) \<and> (\<exists>x. snd item = Some x \<and> elem_ok strtod E x)"
    and "distinct (map fst es)" and "fst ` set es \<inter> dom (member_of m) = {}"
    and "ready c L (concat (map (\<lambda>y. CHR '','' # y)
                 (map (\<lambda>item. member_text (map_prod id (map_option render) item)) es)) @ CHR ''}'' # u)"
    and "length es < k" and "0 < length m" and "map_inv m"
    and "\<forall>k \<in> dom (member_of m). clean k"
  shows "\<exists>L' m'. parse_members_loop k strtod E L m False = Inr (L', m', False) \<and>
           held c L' CJSON_TOK_RBRACE u \<and>
           (\<forall>n. n \<notin> fst ` set es \<longrightarrow> member_of m' n = member_of m n) \<and>
           (\<forall>n \<in> fst ` set es. rel_option (rel_option struct_eq) (member_of m' n) (map_of es n))"
  using assms
proof (induction es arbitrary: L m k)
  case Nil
  then obtain k' where k: "k = Suc k'" by (cases k) auto
  from Nil have r: "ready c L (CHR ''}'' # u)" by simp
  from peek_ready [OF r read_punct(6)] obtain L1 where
    p: "cjson_lexer_peek strtod L = Inr L1" and h: "held c L1 CJSON_TOK_RBRACE u"
    by auto
  have "parse_members_loop k strtod E L m False = Inr (L1, m, False)"
    using k p h by (simp add: held_def)
  with h show ?case by auto
next
  case (Cons item es)
  then obtain k' where k: "k = Suc k'" and k': "length es < k'" by (cases k) auto
  from Cons.prems(1) obtain n x where item: "item = (n, Some x)" and n: "clean n"
    and ok: "elem_ok strtod E x"
    by (cases item) auto
  let ?rest = "concat (map (\<lambda>y. CHR '','' # y)
                 (map (\<lambda>item. member_text (map_prod id (map_option render) item)) es)) @ CHR ''}'' # u"
  let ?mem = "CHR ''\"'' # n @ CHR ''\"'' # CHR '':'' # render x @ ?rest"
  from Cons.prems(4) have r: "ready c L (CHR '','' # ?mem)"
    unfolding item by (simp add: member_text_Some id_def)
  from peek_ready [OF r read_punct(1)] obtain L1 where
    p: "cjson_lexer_peek strtod L = Inr L1" and h: "held c L1 CJSON_TOK_COMMA ?mem"
    by auto
  from pop_held [OF h] obtain L2 where
    pp: "cjson_lexer_pop strtod L1 = Inr (token L1, L2)" and r2: "ready c L2 ?mem"
    by blast
  from r2 have s: "starts strtod c L2 ?mem" by (simp add: starts_def)
  from Cons.prems(3) have fresh: "n \<notin> dom (member_of m)" unfolding item by auto
  from parse_member_ok [OF s n ok delim_tail_brace Cons.prems(6,7,8) fresh]
  obtain L3 m1 x' where
    pm: "cjson_parse_member strtod E L2 m False = Inr (L3, m1, False)"
    and r3: "ready c L3 ?rest" and l1: "length m1 = length m" and i1: "map_inv m1"
    and mo: "member_of m1 = (member_of m)(n \<mapsto> Some x')" and eq: "struct_eq x' x"
    by blast
  from Cons.prems(1) have all: "\<forall>item \<in> set es. clean (fst item) \<and> (\<exists>x. snd item = Some x \<and> elem_ok strtod E x)"
    by simp
  from Cons.prems(2) have dist: "distinct (map fst es)" and nn: "n \<notin> fst ` set es"
    unfolding item by simp_all
  have disj: "fst ` set es \<inter> dom (member_of m1) = {}"
    using Cons.prems(3) nn unfolding mo by auto
  have len1: "0 < length m1" using l1 Cons.prems(6) by simp
  have cl1: "\<forall>k \<in> dom (member_of m1). clean k"
    using Cons.prems(8) n unfolding mo by auto
  from Cons.IH [OF all dist disj r3 k' len1 i1 cl1] obtain L' m' where
    l: "parse_members_loop k' strtod E L3 m1 False = Inr (L', m', False)"
    and h': "held c L' CJSON_TOK_RBRACE u"
    and out: "\<forall>n. n \<notin> fst ` set es \<longrightarrow> member_of m' n = member_of m1 n"
    and inn: "\<forall>n \<in> fst ` set es. rel_option (rel_option struct_eq) (member_of m' n) (map_of es n)"
    by blast
  have "parse_members_loop k strtod E L m False = Inr (L', m', False)"
    using k p h pp pm l by (simp add: held_def)
  moreover have "\<forall>n'. n' \<notin> fst ` set (item # es) \<longrightarrow> member_of m' n' = member_of m n'"
    using out mo unfolding item by auto
  moreover have "\<forall>n' \<in> fst ` set (item # es).
      rel_option (rel_option struct_eq) (member_of m' n') (map_of (item # es) n')"
  proof
    fix n' assume "n' \<in> fst ` set (item # es)"
    then consider "n' = n" | "n' \<noteq> n" "n' \<in> fst ` set es" unfolding item by auto
    then show "rel_option (rel_option struct_eq) (member_of m' n') (map_of (item # es) n')"
    proof cases
      case 1
      then have "member_of m' n' = Some (Some x')" using out nn mo by simp
      then show ?thesis using 1 eq unfolding item by simp
    next
      case 2
      then have "rel_option (rel_option struct_eq) (member_of m' n') (map_of es n')"
        using inn by blast
      then show ?thesis using 2 unfolding item by simp
    qed
  qed
  ultimately show ?case using h' by blast
qed

lemma render_object:
  "render (Element CJSON_OBJECT (VObject m))
     = CHR ''{'' # separated (map (\<lambda>item. member_text (map_prod id (map_option render) item))
                               (concat m)) @ ''}''"
  by (simp add: map_concat comp_def)

lemma map_inv_empty: "map_inv (replicate n [])"
  by (simp add: map_inv_iff)

lemma member_of_empty: "member_of (replicate n []) = Map.empty"
  by (simp add: member_of_def [abs_def] map_entries_def)

lemma value_ok_object:
  assumes all: "\<forall>item \<in> set (concat m). clean (fst item) \<and>
                  (\<exists>x. snd item = Some x \<and> elem_ok strtod E x)"
    and dist: "distinct (map fst (concat m))" and len: "length (concat m) \<le> k"
  shows "value_ok strtod k E (Element CJSON_OBJECT (VObject m))"
  unfolding value_ok_def
proof (intro allI impI)
  fix c L u
  let ?T = "Element CJSON_OBJECT (VObject m)"
  let ?mt = "\<lambda>item. member_text (map_prod id (map_option render) item)"
  let ?rest = "separated (map ?mt (concat m)) @ CHR ''}'' # u"
  let ?m0 = "replicate 64 [] :: cjson_map"
  assume "ready c L (render ?T @ u)" and d: "delim u"
  then have r: "ready c L (CHR ''{'' # ?rest)" unfolding render_object by simp
  from peek_ready [OF r read_punct(5)] obtain L1 where
    p: "cjson_lexer_peek strtod L = Inr L1" and h: "held c L1 CJSON_TOK_LBRACE ?rest"
    by auto
  from pop_held [OF h] obtain L2 where
    pp: "cjson_lexer_pop strtod L1 = Inr (token L1, L2)" and r2: "ready c L2 ?rest"
    by blast
  have ty1: "tok_type (token L1) = CJSON_TOK_LBRACE" using h by (simp add: held_def)
  have pv: "cjson_parse_value k strtod E L False = cjson_parse_object k strtod E L1 False"
    using p ty1 by (simp add: cjson_parse_value_def Let_def)
  show "\<exists>T' L'. cjson_parse_value k strtod E L False = Inr (Some T', L', False) \<and>
          ready c L' u \<and> struct_eq T' ?T"
  proof (cases "concat m")
    case Nil
    have "?rest = CHR ''}'' # u" unfolding Nil by (simp add: separated_def)
    with r2 have r2: "ready c L2 (CHR ''}'' # u)" by simp
    have ws: "cjson_parse_ws L2 = L2"
      by (rule ws_ready [OF r2]) (simp add: nospace_def isspace_def)
    from peek_ready [OF r2 read_punct(6)] obtain L3 where
      p3: "cjson_lexer_peek strtod L2 = Inr L3" and h3: "held c L3 CJSON_TOK_RBRACE u"
      by auto
    from pop_held [OF h3] obtain L4 where
      pp3: "cjson_lexer_pop strtod L3 = Inr (token L3, L4)" and r4: "ready c L4 u"
      by blast
    have "cjson_parse_object k strtod E L1 False
            = Inr (Some (Element CJSON_OBJECT (VObject ?m0)), L4, False)"
      using pp ws p3 h3 pp3 by (simp add: cjson_parse_object_def held_def)
    moreover have "struct_eq (Element CJSON_OBJECT (VObject ?m0)) ?T"
    proof (rule struct_eq.object)
      fix n
      have "member_of m n = None" unfolding member_of_def map_entries_def Nil by simp
      then show "rel_option (rel_option struct_eq) (member_of ?m0 n) (member_of m n)"
        by (simp add: member_of_empty)
    qed
    ultimately show ?thesis using pv r4 by auto
  next
    case (Cons item es)
    have "item \<in> set (concat m)" unfolding Cons by simp
    with all have "clean (fst item) \<and> (\<exists>x. snd item = Some x \<and> elem_ok strtod E x)"
      by blast
    then obtain n x where item: "item = (n, Some x)" and n: "clean n"
      and ok: "elem_ok strtod E x"
      by (cases item) auto
    let ?tail = "concat (map (\<lambda>y. CHR '','' # y) (map ?mt es)) @ CHR ''}'' # u"
    let ?v = "CHR '':'' # render x @ ?tail"
    let ?mem = "CHR ''\"'' # n @ CHR ''\"'' # ?v"
    have "?rest = ?mem"
      unfolding Cons item by (simp add: separated_Cons member_text_Some)
    with r2 have r2: "ready c L2 ?mem" by simp
    have ws: "cjson_parse_ws L2 = L2"
      by (rule ws_ready [OF r2]) (simp add: nospace_def isspace_def)
    let ?tok = "(token L2)\<lparr>tok_type := CJSON_TOK_STRING\<rparr>"
    have t: "read_token strtod ?mem (token L2) = Inr (?tok, length n + 2)"
      by (rule read_string [OF n])
    have kk: "length n + 2 \<le> length ?mem" by simp
    have ne: "tok_type ?tok \<noteq> CJSON_TOK_NONE" by simp
    from peek_ready [OF r2 t kk ne] obtain L3 where
      p3: "cjson_lexer_peek strtod L2 = Inr L3"
      and h3: "held c L3 (tok_type ?tok) (drop (length n + 2) ?mem)"
      by blast
    have ty3: "tok_type (token L3) \<noteq> CJSON_TOK_RBRACE" using h3 by (simp add: held_def)
    have s: "starts strtod c L3 ?mem" unfolding starts_def using r2 p3 by blast
    have fresh: "n \<notin> dom (member_of ?m0)" by (simp add: member_of_empty)
    have cl0: "\<forall>k \<in> dom (member_of ?m0). clean k" by (simp add: member_of_empty)
    have len0: "0 < length ?m0" by simp
    from parse_member_ok [OF s n ok delim_tail_brace len0 map_inv_empty cl0 fresh]
    obtain L4 m1 x' where
      pm: "cjson_parse_member strtod E L3 ?m0 False = Inr (L4, m1, False)"
      and r4: "ready c L4 ?tail" and l1: "length m1 = length ?m0" and i1: "map_inv m1"
      and mo: "member_of m1 = (member_of ?m0)(n \<mapsto> Some x')" and eq: "struct_eq x' x"
      by blast
    from all have all': "\<forall>item \<in> set es. clean (fst item) \<and>
        (\<exists>x. snd item = Some x \<and> elem_ok strtod E x)"
      unfolding Cons by simp
    from dist have dist': "distinct (map fst es)" and nn: "n \<notin> fst ` set es"
      unfolding Cons item by simp_all
    have disj: "fst ` set es \<inter> dom (member_of m1) = {}"
      using nn unfolding mo by (simp add: member_of_empty)
    have len1: "0 < length m1" using l1 by simp
    have cl1: "\<forall>k \<in> dom (member_of m1). clean k"
      using n unfolding mo by (simp add: member_of_empty)
    from len have k': "length es < k" unfolding Cons by simp
    from members_loop_ok [OF all' dist' disj r4 k' len1 i1 cl1] obtain L5 m' where
      l: "parse_members_loop k strtod E L4 m1 False = Inr (L5, m', False)"
      and h5: "held c L5 CJSON_TOK_RBRACE u"
      and out: "\<forall>n. n \<notin> fst ` set es \<longrightarrow> member_of m' n = member_of m1 n"
      and inn: "\<forall>n \<in> fst ` set es. rel_option (rel_option struct_eq) (member_of m' n) (map_of es n)"
      by blast
    from pop_held [OF h5] obtain L6 where
      pp5: "cjson_lexer_pop strtod L5 = Inr (token L5, L6)" and r6: "ready c L6 u"
      by blast
    have "cjson_parse_object k strtod E L1 False
            = Inr (Some (Element CJSON_OBJECT (VObject m')), L6, False)"
      using pp ws p3 ty3 pm l h5 pp5
      by (simp add: cjson_parse_object_def cjson_parse_members_def held_def)
    moreover have "struct_eq (Element CJSON_OBJECT (VObject m')) ?T"
    proof (rule struct_eq.object)
      fix n'
      have mm: "member_of m n' = map_of (item # es) n'"
        unfolding member_of_def map_entries_def Cons ..
      consider "n' = n" | "n' \<noteq> n" "n' \<in> fst ` set es" | "n' \<noteq> n" "n' \<notin> fst ` set es"
        by blast
      then show "rel_option (rel_option struct_eq) (member_of m' n') (member_of m n')"
      proof cases
        case 1
        then have "member_of m' n' = Some (Some x')" using out nn mo by simp
        then show ?thesis using 1 eq unfolding mm item by simp
      next
        case 2
        then have "rel_option (rel_option struct_eq) (member_of m' n') (map_of es n')"
          using inn by blast
        then show ?thesis using 2 unfolding mm item by simp
      next
        case 3
        then have "member_of m' n' = None" using out mo by (simp add: member_of_empty)
        moreover have "map_of es n' = None" using 3 by (simp add: map_of_eq_None_iff)
        ultimately show ?thesis using 3 unfolding mm item by simp
      qed
    qed
    ultimately show ?thesis using pv r6 by auto
  qed
qed



lemma length_tail_mem:
  "y \<in> set ts \<Longrightarrow> length y < length (concat (map (\<lambda>y. CHR '','' # y) ts))"
  by (induction ts) auto

lemma length_tail_count: "length ts \<le> length (concat (map (\<lambda>y. CHR '','' # y) ts))"
  by (induction ts) auto

lemma length_separated_mem: "y \<in> set ts \<Longrightarrow> length y \<le> length (separated ts)"
proof (cases ts)
  case Nil
  assume "y \<in> set ts" with Nil show ?thesis by simp
next
  case (Cons x xs)
  assume "y \<in> set ts"
  with Cons have "y = x \<or> y \<in> set xs" by auto
  then show ?thesis
    unfolding Cons separated_Cons using length_tail_mem [of y xs] by auto
qed

lemma length_separated_count: "length ts \<le> Suc (length (separated ts))"
proof (cases ts)
  case Nil
  then show ?thesis by simp
next
  case (Cons x xs)
  show ?thesis unfolding Cons separated_Cons using length_tail_count [of xs] by simp
qed

lemma parse_element_plain:
  "plain T \<Longrightarrow> length (render T) \<le> f \<Longrightarrow>
   elem_ok strtod (cjson_parse_element (Suc f) strtod) T"
proof (induction f arbitrary: T rule: less_induct)
  case (less f)
  note p = less.prems(1)
  have "value_ok strtod f (cjson_parse_element f strtod) T"
    using p
  proof (cases rule: plain_cases)
    case 1
    show ?thesis by (rule value_ok_scalar [OF p]) (simp_all add: 1)
  next
    case (2 b)
    show ?thesis by (rule value_ok_scalar [OF p]) (simp_all add: 2)
  next
    case (3 i)
    show ?thesis by (rule value_ok_scalar [OF p]) (simp_all add: 3)
  next
    case (4 s)
    show ?thesis by (rule value_ok_scalar [OF p]) (simp_all add: 4)
  next
    case (5 es cap)
    let ?xs = "map the es"
    from p 5 have nn: "None \<notin> set es" and pl: "list_all (pred_option plain) es" by simp_all
    have es: "es = map Some ?xs"
    proof (rule nth_equalityI)
      show "length es = length (map Some ?xs)" by simp
    next
      fix i assume "i < length es"
      then have "es ! i \<in> set es" by simp
      with nn have "es ! i \<noteq> None" by metis
      then show "es ! i = map Some ?xs ! i" using \<open>i < length es\<close> by auto
    qed
    have T: "T = Element CJSON_ARRAY (VArray (map Some ?xs) cap)" using 5 es by simp
    have len: "length (render T) = length (separated (map render ?xs)) + 2"
      unfolding T render_array by simp
    have all: "\<forall>x \<in> set ?xs. plain x \<and> elem_ok strtod (cjson_parse_element f strtod) x"
    proof
      fix x assume x: "x \<in> set ?xs"
      then have "Some x \<in> set es" using es by (metis image_eqI list.set_map)
      with pl have px: "plain x" by (auto simp: list_all_iff)
      have "length (render x) \<le> length (separated (map render ?xs))"
        by (rule length_separated_mem) (use x in auto)
      with len less.prems(2) have "length (render x) \<le> f - 1" and "f - 1 < f" by simp_all
      from less.IH [OF this(2) px this(1)] \<open>f - 1 < f\<close>
      show "plain x \<and> elem_ok strtod (cjson_parse_element f strtod) x" using px by simp
    qed
    have "length ?xs \<le> f"
      using length_separated_count [of "map render ?xs"] len less.prems(2) by simp
    from value_ok_array [OF all this] show ?thesis unfolding T .
  next
    case (6 m)
    let ?mt = "\<lambda>item. member_text (map_prod id (map_option render) item)"
    from p 6 have dist: "distinct (map fst (concat m))"
      and a1: "list_all (list_all (\<lambda>item. clean (fst item) \<and> snd item \<noteq> None)) m"
      and a2: "list_all (list_all (pred_prod (\<lambda>n. True) (pred_option plain))) m"
      by simp_all
    have len: "length (render T) = length (separated (map ?mt (concat m))) + 2"
      unfolding 6 render_object by simp
    have all: "\<forall>item \<in> set (concat m). clean (fst item) \<and>
                 (\<exists>x. snd item = Some x \<and> elem_ok strtod (cjson_parse_element f strtod) x)"
    proof
      fix item assume i: "item \<in> set (concat m)"
      then obtain c where c: "c \<in> set m" and ic: "item \<in> set c" by auto
      from a1 c ic have cl: "clean (fst item)" and sn: "snd item \<noteq> None"
        by (auto simp: list_all_iff)
      then obtain n x where item: "item = (n, Some x)" by (cases item) auto
      from a2 c ic have "pred_option plain (snd item)"
        by (auto simp: list_all_iff pred_prod_beta)
      then have px: "plain x" unfolding item by simp
      have "length (?mt item) \<le> length (separated (map ?mt (concat m)))"
        by (rule length_separated_mem) (use i in auto)
      moreover have "length (render x) < length (?mt item)"
        unfolding item by (simp add: member_text_Some)
      ultimately have "length (render x) \<le> f - 1" and "f - 1 < f"
        using len less.prems(2) by simp_all
      from less.IH [OF this(2) px this(1)] \<open>f - 1 < f\<close>
      have "elem_ok strtod (cjson_parse_element f strtod) x" by simp
      with cl show "clean (fst item) \<and>
          (\<exists>x. snd item = Some x \<and> elem_ok strtod (cjson_parse_element f strtod) x)"
        unfolding item by simp
    qed
    have "length (map ?mt (concat m)) \<le> Suc (length (separated (map ?mt (concat m))))"
      by (rule length_separated_count)
    then have "length (concat m) \<le> f" using len less.prems(2) by simp
    from value_ok_object [OF all dist this] show ?thesis unfolding 6 .
  qed
  then show ?case by (rule elem_of_value [OF p])
qed

lemma parse_str_render:
  assumes p: "plain T"
  shows "\<exists>T'. cjson_parse_str strtod (render T) = Inr (Some T') \<and> struct_eq T' T"
proof -
  let ?L = "\<lparr>content = render T, location = 0, token = zero_token\<rparr>"
  have cs: "c_str (render T) = render T"
    by (rule c_str_nul_free [OF to_str_render(2) [OF p]])
  have "ready (render T) ?L (render T @ [])" by (simp add: ready_def zero_token_def)
  then have s: "starts strtod (render T) ?L (render T @ [])" by (simp add: starts_def)
  have d: "delim []" by (simp add: delim_def)
  from parse_element_plain [OF p le_refl, of strtod] s d obtain T' L' where
    e: "cjson_parse_element (Suc (length (render T))) strtod ?L False = Inr (Some T', L', False)"
    and eq: "struct_eq T' T"
    unfolding elem_ok_def by blast
  have "cjson_parse_str strtod (render T) = Inr (Some T')"
    unfolding cjson_parse_str_def cs Let_def e by simp
  with eq show ?thesis by blast
qed

subsection \<open>C3: the round trip through the compact text\<close>

text \<open>
  C3, as amended. The claim as stated fails: the serializer writes the bytes of a
  string between two quotes without escaping any, so the text of a string holding a
  \<open>"\<close> reads back as another string (the example after the theorem). What holds: for
  every plain tree \<open>T\<close> (tags and payloads agree, no float, no negative integer, no
  \<open>"\<close>, backslash or NUL in a string or member name, no null pointer, member names
  unique within an object), whatever the C library's \<open>strtod\<close> and \<open>%lf\<close>,
  \<open>cjson_to_str\<close> in compact mode returns a text, \<open>cjson_parse_str\<close> on that text
  returns a tree, and that tree is structurally equal to \<open>T\<close>: scalars exactly, arrays
  slot by slot, objects name by name whatever the order of the members.
\<close>

theorem cjson_round_trip_plain:
  assumes "plain T"
  shows "\<exists>txt T'. cjson_to_str lf (Some T) False = Inr txt \<and>
           cjson_parse_str strtod txt = Inr (Some T') \<and> struct_eq T' T"
  using to_str_render(1) [OF assms, of lf] parse_str_render [OF assms, of strtod] by auto

text \<open>The theorem at a concrete object holding an array of four scalars.\<close>

theorem cjson_round_trip_plain_witness:
  "plain (Element CJSON_OBJECT (VObject
      [[(''k'', Some (Element CJSON_ARRAY (VArray
           [Some (cjson_create_integer 1), Some (cjson_create_bool True),
            Some (cjson_create_string ''x''), Some cjson_create_null] 8)))]])) \<and>
   (\<exists>txt T'.
      cjson_to_str lf_zero (Some (Element CJSON_OBJECT (VObject
        [[(''k'', Some (Element CJSON_ARRAY (VArray
             [Some (cjson_create_integer 1), Some (cjson_create_bool True),
              Some (cjson_create_string ''x''), Some cjson_create_null] 8)))]]))) False = Inr txt \<and>
      cjson_parse_str strtod_zero txt = Inr (Some T') \<and>
      struct_eq T' (Element CJSON_OBJECT (VObject
        [[(''k'', Some (Element CJSON_ARRAY (VArray
             [Some (cjson_create_integer 1), Some (cjson_create_bool True),
              Some (cjson_create_string ''x''), Some cjson_create_null] 8)))]])))"
proof -
  have p: "plain (Element CJSON_OBJECT (VObject
      [[(''k'', Some (Element CJSON_ARRAY (VArray
           [Some (cjson_create_integer 1), Some (cjson_create_bool True),
            Some (cjson_create_string ''x''), Some cjson_create_null] 8)))]]))"
    by (simp add: clean_def NUL_def cjson_create_integer_def cjson_create_bool_def
        cjson_create_string_def cjson_create_null_def strdup_def c_str_def)
  from p cjson_round_trip_plain [OF p, of lf_zero strtod_zero] show ?thesis by simp
qed

text \<open>
  The string \<open>a"b\<close>: its compact text is \<open>"a"b"\<close>, which reads back as the string
  \<open>a\<close>.
\<close>

theorem cjson_round_trip_quote:
  "cjson_to_str lf_zero (Some (cjson_create_string ''a\"b'')) False = Inr ''\"a\"b\"'' \<and>
   cjson_parse_str strtod_zero ''\"a\"b\"'' = Inr (Some (cjson_create_string ''a'')) \<and>
   \<not> struct_eq (cjson_create_string ''a'') (cjson_create_string ''a\"b'')"
proof -
  have "cjson_to_str lf_zero (Some (cjson_create_string ''a\"b'')) False = Inr ''\"a\"b\"''"
    by code_simp
  moreover have "cjson_parse_str strtod_zero ''\"a\"b\"'' = Inr (Some (cjson_create_string ''a''))"
    by code_simp
  moreover have "\<not> struct_eq (cjson_create_string ''a'') (cjson_create_string ''a\"b'')"
    by (simp add: struct_eq.simps cjson_create_string_def strdup_def c_str_def NUL_def)
  ultimately show ?thesis by simp
qed

end
